theory Spec2Isabelle
  imports Main "HOL-Library.Word"
begin

section \<open>Common types\<close>

text \<open>
  A Go \<open>error\<close> value is modelled by its message; \<open>nil\<close> is \<open>None\<close> of
  \<open>error option\<close>. \<open>fmt.Errorf("prefix %v", err)\<close> is the prefix followed by
  the message of \<open>err\<close>.
\<close>

type_synonym error = string
type_synonym byte = "8 word"
type_synonym uint64 = "64 word"

section \<open>The object store as the code consumes it\<close>

text \<open>
  \<open>io.ReadCloser\<close> as returned by \<open>GetRange\<close>: the stream delivers its bytes in
  pieces, one piece per \<open>Read\<close> at most (a \<open>Read\<close> may return fewer bytes than the
  buffer holds, which \<open>io.Reader\<close> allows); when nothing is pending \<open>Read\<close> returns
  0 bytes and the error \<open>final\<close> (\<open>io.EOF\<close>, or a failure of the transport).
\<close>

record ReadCloser =
  pending :: "byte list list"
  final :: error
  closeResult :: "error option"

definition Read :: "ReadCloser \<Rightarrow> byte list \<Rightarrow> (byte list \<times> nat \<times> error option) \<times> ReadCloser" where
  "Read rc p =
     (case pending rc of
        [] \<Rightarrow> ((p, 0, Some (final rc)), rc)
      | c # cs \<Rightarrow>
          if length c \<le> length p
          then ((c @ drop (length c) p, length c, None), rc\<lparr>pending := cs\<rparr>)
          else ((take (length p) c, length p, None), rc\<lparr>pending := drop (length p) c # cs\<rparr>))"

definition Close :: "ReadCloser \<Rightarrow> error option" where
  "Close rc = closeResult rc"

text \<open>
  \<open>objstore.Bucket\<close>, an interface of an external library: \<open>Iter\<close> is given by the
  children it lists under a directory, in order, and the error it ends with when every
  callback succeeded; \<open>Upload\<close> by whether it consumes its reader up to end of file
  before it returns, and by its result.
\<close>

record Bucket =
  Iter :: "string \<Rightarrow> string list \<times> error option"
  Attributes :: "string \<Rightarrow> error + int"
  GetRange :: "string \<Rightarrow> int \<Rightarrow> int \<Rightarrow> error + ReadCloser"
  Upload :: "string \<Rightarrow> bool \<times> error option"

section \<open>BucketReaderAt\<close>

record BucketReaderAt =
  reader_name :: string
  reader_Bucket :: Bucket

datatype range_event = GetRange_call string int int | Read_call nat | Close_call

text \<open>
  \<open>ReadAt(p, off)\<close> returns the buffer as the call leaves it, \<open>n\<close>, \<open>err\<close>, and
  the calls it made on the bucket and the stream. \<open>n\<close> and \<open>err\<close> are named results:
  \<open>return rc.Read(p)\<close> assigns both, then the deferred function overwrites \<open>err\<close>
  with the result of \<open>rc.Close()\<close>.
\<close>

definition ReadAt :: "BucketReaderAt \<Rightarrow> byte list \<Rightarrow> int \<Rightarrow> (byte list \<times> nat \<times> error option) \<times> range_event list" where
  "ReadAt b p off =
     (case GetRange (reader_Bucket b) (reader_name b) off (int (length p)) of
        Inl err \<Rightarrow> ((p, 0, Some err), [GetRange_call (reader_name b) off (int (length p))])
      | Inr rc \<Rightarrow>
          (case Read rc p of
             ((p', n, err), rc') \<Rightarrow>
               (let err = Close rc'
                in ((p', n, err),
                    [GetRange_call (reader_name b) off (int (length p)), Read_call (length p), Close_call]))))"

section \<open>IterateBucketBlocks\<close>

text \<open>
  The external functions the iterator and the persister call: \<open>filepath.Base\<close>,
  \<open>filepath.Join\<close>, \<open>ulid.Parse\<close>, \<open>ULID.Time\<close>, \<open>ULID.String\<close>,
  \<open>parquet.OpenFile\<close> and \<open>dynparquet.NewSerializedBuffer\<close>. A serialized buffer is the list of its row
  groups: \<open>NumRowGroups\<close> is its length and \<open>DynamicRowGroup(i)\<close> its \<open>i\<close>-th element.
\<close>

record ('ulid, 'file, 'rg) Libs =
  filepath_Base :: "string \<Rightarrow> string"
  filepath_Join :: "string list \<Rightarrow> string"
  ulid_Parse :: "string \<Rightarrow> error + 'ulid"
  ulid_Time :: "'ulid \<Rightarrow> uint64"
  ulid_String :: "'ulid \<Rightarrow> string"
  parquet_OpenFile :: "BucketReaderAt \<Rightarrow> int \<Rightarrow> error + 'file"
  NewSerializedBuffer :: "'file \<Rightarrow> error + 'rg list"

record DB =
  db_bucket :: "Bucket option"
  db_ignoreStorageOnQuery :: bool

record Table =
  table_name :: string
  table_db :: DB

text \<open>\<open>TrueNegativeFilter.Eval\<close> returns a pair, as in Go.\<close>

type_synonym 'rg TrueNegativeFilter = "'rg \<Rightarrow> bool \<times> error option"

text \<open>
  The caller's \<open>iterator\<close> is a closure: it reads and updates a state \<open>'s\<close> of the
  caller and returns whether to continue.
\<close>

type_synonym ('rg, 's) iterator = "'rg \<Rightarrow> 's \<Rightarrow> bool \<times> 's"

datatype block_event = Attributes_call string | OpenFile_call string | Eval_call nat | Yield_call nat

datatype iter_event = Iter_call string | Block string block_event | Log_read_blocks nat

text \<open>
  The loop \<open>for i := 0; i < buf.NumRowGroups(); i++\<close> of the callback. The result is
  what the callback returns from inside the loop (\<open>Some r\<close>) or \<open>None\<close> when the
  loop ends, the caller's state and the calls made.
\<close>

function rowGroupLoop :: "'rg TrueNegativeFilter \<Rightarrow> ('rg, 's) iterator \<Rightarrow> 'rg list \<Rightarrow> nat \<Rightarrow> 's \<Rightarrow> error option option \<times> 's \<times> block_event list" where
  "rowGroupLoop filt iterator buf i s =
     (if i < length buf then
        (let rg = buf ! i in
         case filt rg of
           (mayContainUsefulData, err) \<Rightarrow>
             if err \<noteq> None then (Some err, s, [Eval_call i])
             else if mayContainUsefulData then
               (case iterator rg s of
                  (continu, s') \<Rightarrow>
                    if \<not> continu then (Some err, s', [Eval_call i, Yield_call i])
                    else (case rowGroupLoop filt iterator buf (i + 1) s' of
                            (r, s'', evs) \<Rightarrow> (r, s'', Eval_call i # Yield_call i # evs)))
             else (case rowGroupLoop filt iterator buf (i + 1) s of
                     (r, s'', evs) \<Rightarrow> (r, s'', Eval_call i # evs)))
      else (None, s, []))"
  by pat_completeness auto
termination
  by (relation "measure (\<lambda>(filt, iterator, buf, i, s). length buf - i)") auto

declare rowGroupLoop.simps [simp del]

text \<open>
  The function passed to \<open>bucket.Iter\<close>. Its state is the counter \<open>n\<close> of the
  enclosing function and the caller's state.
\<close>

definition blockCallback :: "('ulid, 'file, 'rg) Libs \<Rightarrow> Bucket \<Rightarrow> 'rg TrueNegativeFilter \<Rightarrow> ('rg, 's) iterator \<Rightarrow> uint64 \<Rightarrow> string \<Rightarrow> nat \<times> 's \<Rightarrow> error option \<times> (nat \<times> 's) \<times> block_event list" where
  "blockCallback L bkt filt iterator lastBlockTimestamp blockDir st =
     (case ulid_Parse L (filepath_Base L blockDir) of
        Inl err \<Rightarrow> (Some err, st, [])
      | Inr blockUlid \<Rightarrow>
          if lastBlockTimestamp \<noteq> 0 \<and> ulid_Time L blockUlid \<ge> lastBlockTimestamp then (None, st, [])
          else
            (let blockName = filepath_Join L [blockDir, ''data.parquet''] in
             case Attributes bkt blockName of
               Inl err \<Rightarrow> (Some err, st, [Attributes_call blockName])
             | Inr attribs_Size \<Rightarrow>
                 (let b = \<lparr>reader_name = blockName, reader_Bucket = bkt\<rparr> in
                  case parquet_OpenFile L b attribs_Size of
                    Inl err \<Rightarrow> (Some err, st, [Attributes_call blockName, OpenFile_call blockName])
                  | Inr file \<Rightarrow>
                      (case NewSerializedBuffer L file of
                         Inl err \<Rightarrow> (Some err, st, [Attributes_call blockName, OpenFile_call blockName])
                       | Inr buf \<Rightarrow>
                           (case rowGroupLoop filt iterator buf 0 (snd st) of
                              (r, s', evs) \<Rightarrow>
                                ((case r of Some err \<Rightarrow> err | None \<Rightarrow> None),
                                 (fst st + 1, s'),
                                 Attributes_call blockName # OpenFile_call blockName # evs))))))"

text \<open>
  \<open>bucket.Iter(ctx, dir, f)\<close>: \<open>f\<close> is called on each child in order; the first
  error \<open>f\<close> returns ends the iteration and is returned.
\<close>

fun iterChildren :: "(string \<Rightarrow> 'st \<Rightarrow> error option \<times> 'st \<times> block_event list) \<Rightarrow> string list \<Rightarrow> error option \<Rightarrow> 'st \<Rightarrow> error option \<times> 'st \<times> iter_event list" where
  "iterChildren f [] listErr st = (listErr, st, [])"
| "iterChildren f (c # cs) listErr st =
     (case f c st of
        (Some err, st', evs) \<Rightarrow> (Some err, st', map (Block c) evs)
      | (None, st', evs) \<Rightarrow>
          (case iterChildren f cs listErr st' of
             (r, st'', evs') \<Rightarrow> (r, st'', map (Block c) evs @ evs')))"

definition bucket_Iter :: "Bucket \<Rightarrow> string \<Rightarrow> (string \<Rightarrow> 'st \<Rightarrow> error option \<times> 'st \<times> block_event list) \<Rightarrow> 'st \<Rightarrow> error option \<times> 'st \<times> iter_event list" where
  "bucket_Iter bkt dir f st =
     (case Iter bkt dir of
        (children, listErr) \<Rightarrow>
          (case iterChildren f children listErr st of
             (r, st', evs) \<Rightarrow> (r, st', Iter_call dir # evs)))"

text \<open>
  \<open>IterateBucketBlocks\<close> returns its error, the caller's state after the calls of
  \<open>iterator\<close>, and the calls made. Tracing spans are not modelled; the debug log line
  is the last event.
\<close>

definition IterateBucketBlocks :: "('ulid, 'file, 'rg) Libs \<Rightarrow> Table \<Rightarrow> 'rg TrueNegativeFilter \<Rightarrow> ('rg, 's) iterator \<Rightarrow> uint64 \<Rightarrow> 's \<Rightarrow> error option \<times> 's \<times> iter_event list" where
  "IterateBucketBlocks L t filt iterator lastBlockTimestamp s =
     (if db_bucket (table_db t) = None \<or> db_ignoreStorageOnQuery (table_db t) then (None, s, [])
      else
        (case bucket_Iter (the (db_bucket (table_db t))) (table_name t)
                (blockCallback L (the (db_bucket (table_db t))) filt iterator lastBlockTimestamp) (0, s) of
           (err, (n, s'), evs) \<Rightarrow> (err, s', evs @ [Log_read_blocks n])))"

section \<open>Persist\<close>

text \<open>
  A table block: its table, its identifier and the value \<open>t.Serialize(w)\<close> returns
  (\<open>Serialize\<close> is not part of the sources; only its result matters to \<open>Persist\<close>).
\<close>

record 'ulid TableBlock =
  block_table :: Table
  block_ulid :: 'ulid
  block_Serialize :: "error option"

text \<open>
  \<open>Persist\<close> runs two threads that share the variable \<open>err\<close>: the goroutine
  (\<open>err = t.Serialize(w)\<close>, then the deferred \<open>w.Close()\<close>) and the caller
  (\<open>Upload\<close>, then the test of \<open>err\<close>). Each thread is a sequence of atomic steps
  and a schedule says which thread moves next. The pipe is seen through one fact: an
  \<open>Upload\<close> that consumes its reader and succeeds has read end of file, which the pipe
  delivers only after \<open>w.Close()\<close>; until then the caller is blocked and its step
  changes nothing.
\<close>

datatype goroutine_pc = G_Serialize | G_Assign "error option" | G_Close | G_Done

datatype main_pc = M_Upload | M_Uploaded "error option" | M_Returned "error option"

datatype thread = Main | Goroutine

record persist_state =
  main :: main_pc
  goroutine :: goroutine_pc
  err_var :: "error option"

fun persist_step :: "error option \<Rightarrow> bool \<times> error option \<Rightarrow> thread \<Rightarrow> persist_state \<Rightarrow> persist_state" where
  "persist_step ser up Goroutine s =
     (case goroutine s of
        G_Serialize \<Rightarrow> s\<lparr>goroutine := G_Assign ser\<rparr>
      | G_Assign e \<Rightarrow> s\<lparr>goroutine := G_Close, err_var := e\<rparr>
      | G_Close \<Rightarrow> s\<lparr>goroutine := G_Done\<rparr>
      | G_Done \<Rightarrow> s)"
| "persist_step ser up Main s =
     (case main s of
        M_Upload \<Rightarrow>
          if fst up \<and> snd up = None \<and> goroutine s \<noteq> G_Done then s
          else s\<lparr>main := M_Uploaded (snd up)\<rparr>
      | M_Uploaded (Some e) \<Rightarrow> s\<lparr>main := M_Returned (Some (''failed to upload block '' @ e))\<rparr>
      | M_Uploaded None \<Rightarrow>
          (case err_var s of
             Some e \<Rightarrow> s\<lparr>main := M_Returned (Some (''failed to serialize block: '' @ e))\<rparr>
           | None \<Rightarrow> s\<lparr>main := M_Returned None\<rparr>)
      | M_Returned r \<Rightarrow> s)"

fun persist_run :: "error option \<Rightarrow> bool \<times> error option \<Rightarrow> thread list \<Rightarrow> persist_state \<Rightarrow> persist_state" where
  "persist_run ser up [] s = s"
| "persist_run ser up (th # ths) s = persist_run ser up ths (persist_step ser up th s)"

datatype persist_event = Upload_call string

text \<open>
  \<open>Persist\<close> under a schedule: what it returns (\<open>None\<close> while the caller has not
  returned within the schedule) and the calls it made on the bucket.
\<close>

definition Persist :: "('ulid, 'file, 'rg) Libs \<Rightarrow> 'ulid TableBlock \<Rightarrow> thread list \<Rightarrow> error option option \<times> persist_event list" where
  "Persist L t schedule =
     (case db_bucket (table_db (block_table t)) of
        None \<Rightarrow> (Some None, [])
      | Some bkt \<Rightarrow>
          (let fileName = filepath_Join L [table_name (block_table t), ulid_String L (block_ulid t), ''data.parquet''];
               s = persist_run (block_Serialize t) (Upload bkt fileName) schedule
                     \<lparr>main = M_Upload, goroutine = G_Serialize, err_var = None\<rparr>
           in ((case main s of M_Returned r \<Rightarrow> Some r | _ \<Rightarrow> None), [Upload_call fileName])))"

section \<open>Distinction\<close>

text \<open>
  An \<open>arrow.Field\<close>, an \<open>arrow.Array\<close> (its positions in order, \<open>None\<close> a null
  position) and an \<open>arrow.Record\<close> (\<open>Schema().Fields()\<close>, the columns and
  \<open>NumRows()\<close>). A builder is the array of the values appended so far.
\<close>

record Field =
  Name :: string
  Type :: string
  Nullable :: bool

type_synonym 'v Array = "'v option list"

record 'v Record =
  Fields :: "Field list"
  Columns :: "'v Array list"
  NumRows :: nat

text \<open>A \<open>logicalplan.Expr\<close>, by its method \<open>MatchColumn\<close>.\<close>

record Expr =
  MatchColumn :: "string \<Rightarrow> bool"

text \<open>
  The functions \<open>Callback\<close> calls that are not part of the sources, as parameters:
  \<open>scalar.Hash(seed, scalar.NewStringScalar(name))\<close>, \<open>hashCombine\<close>, the hash of a
  value at a position that is not null, and the error \<open>appendValue\<close> returns for a
  position of an array, if any.
\<close>

record ('seed, 'v) Hashing =
  scalar_Hash :: "'seed \<Rightarrow> string \<Rightarrow> uint64"
  hashCombine :: "uint64 \<Rightarrow> uint64 \<Rightarrow> uint64"
  hashValue :: "'v \<Rightarrow> uint64"
  appendError :: "'v Array \<Rightarrow> nat \<Rightarrow> error option"

text \<open>
  Modelled from the spec: \<open>hashArray\<close> is a function of this repository that is not
  among the sources. "For each retained array, compute a per-row 64-bit hash. Null/empty
  positions produce hash 0."
\<close>

definition hashArray :: "('seed, 'v) Hashing \<Rightarrow> 'v Array \<Rightarrow> uint64 list" where
  "hashArray X arr = map (\<lambda>c. case c of None \<Rightarrow> 0 | Some v \<Rightarrow> hashValue X v) arr"

text \<open>
  Modelled from the spec: \<open>appendValue\<close> is a function of this repository that is not
  among the sources. "Append this row's values to per-column output builders";
  "builder-append errors abort the batch". The position \<open>i\<close> is within the array
  wherever \<open>Callback\<close> calls it (the composite of row \<open>i\<close> has been computed).
\<close>

definition appendValue :: "('seed, 'v) Hashing \<Rightarrow> 'v Array \<Rightarrow> 'v Array \<Rightarrow> nat \<Rightarrow> error + 'v Array" where
  "appendValue X b arr i =
     (case appendError X arr i of
        Some err \<Rightarrow> Inl err
      | None \<Rightarrow> Inr (b @ [arr ! i]))"

text \<open>
  The operator: \<open>columns\<close>, \<open>hashSeed\<close>, \<open>seen\<close> (a \<open>map[uint64]struct{}\<close>, that is
  a set) and \<open>next\<close>, \<open>nil\<close> until \<open>SetNext\<close>, a plan being given by the error
  its \<open>Callback\<close> returns. \<open>maphash.MakeSeed()\<close> is an argument of \<open>Distinct\<close>.
  The allocator, the tracer and the lock are not modelled: the callbacks of one producer
  run one after the other.
\<close>

record ('seed, 'v) Distinction =
  columns :: "Expr list"
  hashSeed :: 'seed
  seen :: "uint64 set"
  "next" :: "('v Record \<Rightarrow> error option) option"

definition Distinct :: "Expr list \<Rightarrow> 'seed \<Rightarrow> ('seed, 'v) Distinction" where
  "Distinct cols seed = \<lparr>columns = cols, hashSeed = seed, seen = {}, next = None\<rparr>"

definition SetNext :: "('seed, 'v) Distinction \<Rightarrow> ('v Record \<Rightarrow> error option) \<Rightarrow> ('seed, 'v) Distinction" where
  "SetNext d plan = d\<lparr>next := Some plan\<rparr>"

text \<open>
  The column selection. The three slices \<open>distinctFields\<close>, \<open>distinctFieldHashes\<close>
  and \<open>distinctArrays\<close> grow together. \<open>r.Column(i)\<close> panics when the record has no
  column \<open>i\<close>: the result is then \<open>None\<close>.
\<close>

type_synonym 'v selection = "Field list \<times> uint64 list \<times> 'v Array list"

fun columnsLoop :: "('seed, 'v) Hashing \<Rightarrow> 'seed \<Rightarrow> 'v Record \<Rightarrow> nat \<Rightarrow> Field \<Rightarrow> Expr list \<Rightarrow> 'v selection \<Rightarrow> 'v selection option" where
  "columnsLoop X seed r i field [] sel = Some sel"
| "columnsLoop X seed r i field (col # cols) (distinctFields, distinctFieldHashes, distinctArrays) =
     (if MatchColumn col (Name field) then
        (if i < length (Columns r) then
           columnsLoop X seed r i field cols
             (distinctFields @ [field],
              distinctFieldHashes @ [scalar_Hash X seed (Name field)],
              distinctArrays @ [Columns r ! i])
         else None)
      else columnsLoop X seed r i field cols (distinctFields, distinctFieldHashes, distinctArrays))"

fun fieldsLoop :: "('seed, 'v) Hashing \<Rightarrow> 'seed \<Rightarrow> Expr list \<Rightarrow> 'v Record \<Rightarrow> nat \<Rightarrow> Field list \<Rightarrow> 'v selection \<Rightarrow> 'v selection option" where
  "fieldsLoop X seed cols r i [] sel = Some sel"
| "fieldsLoop X seed cols r i (field # rest) sel =
     (case columnsLoop X seed r i field cols sel of
        None \<Rightarrow> None
      | Some sel' \<Rightarrow> fieldsLoop X seed cols r (i + 1) rest sel')"

text \<open>
  The composite of row \<open>i\<close>: the loop \<open>for j := range colHashes\<close> over the pairs
  \<open>(distinctFieldHashes[j], colHashes[j])\<close>. \<open>colHashes[j][i]\<close> panics when the
  array \<open>j\<close> has no position \<open>i\<close>: the result is then \<open>None\<close>.
\<close>

fun compositeLoop :: "('seed, 'v) Hashing \<Rightarrow> nat \<Rightarrow> (uint64 \<times> uint64 list) list \<Rightarrow> uint64 \<Rightarrow> uint64 option" where
  "compositeLoop X i [] hash = Some hash"
| "compositeLoop X i ((fieldHash, colHash) # rest) hash =
     (if i < length colHash then
        (if colHash ! i = 0 then compositeLoop X i rest hash
         else compositeLoop X i rest (hashCombine X hash (hashCombine X fieldHash (colHash ! i))))
      else None)"

text \<open>
  The loop \<open>for j, arr := range distinctArrays\<close> that appends row \<open>i\<close> to the
  builders, over the pairs \<open>(resBuilders[j], arr)\<close>.
\<close>

fun appendLoop :: "('seed, 'v) Hashing \<Rightarrow> nat \<Rightarrow> ('v Array \<times> 'v Array) list \<Rightarrow> error + 'v Array list" where
  "appendLoop X i [] = Inr []"
| "appendLoop X i ((b, arr) # rest) =
     (case appendValue X b arr i of
        Inl err \<Rightarrow> Inl err
      | Inr b' \<Rightarrow>
          (case appendLoop X i rest of
             Inl err \<Rightarrow> Inl err
           | Inr bs' \<Rightarrow> Inr (b' # bs')))"

text \<open>
  The loop over the rows, on the row indices still to visit. Its state is the builders,
  \<open>rows\<close> and \<open>seen\<close>; it ends with the error \<open>Callback\<close> returns from inside the
  loop, if any, or \<open>None\<close> for a panic.
\<close>

fun rowsLoop :: "('seed, 'v) Hashing \<Rightarrow> (uint64 \<times> uint64 list) list \<Rightarrow> 'v Array list \<Rightarrow> nat list \<Rightarrow> 'v Array list \<times> nat \<times> uint64 set \<Rightarrow> (error option \<times> 'v Array list \<times> nat \<times> uint64 set) option" where
  "rowsLoop X hashes distinctArrays [] st = Some (None, st)"
| "rowsLoop X hashes distinctArrays (i # idxs) (resBuilders, rows, seenSet) =
     (case compositeLoop X i hashes 0 of
        None \<Rightarrow> None
      | Some hash \<Rightarrow>
          if hash \<in> seenSet then rowsLoop X hashes distinctArrays idxs (resBuilders, rows, seenSet)
          else
            (case appendLoop X i (zip resBuilders distinctArrays) of
               Inl err \<Rightarrow> Some (Some err, resBuilders, rows, seenSet)
             | Inr resBuilders' \<Rightarrow>
                 rowsLoop X hashes distinctArrays idxs (resBuilders', rows + 1, insert hash seenSet)))"

text \<open>
  \<open>Callback\<close> returns the operator with its \<open>seen\<close> set as the call leaves it, the
  record passed to \<open>next.Callback\<close> if it was called, and the error returned; \<open>None\<close>
  is a panic (an index out of range, or the call of a \<open>next\<close> that is \<open>nil\<close>).
\<close>

definition Callback :: "('seed, 'v) Hashing \<Rightarrow> ('seed, 'v) Distinction \<Rightarrow> 'v Record \<Rightarrow> (('seed, 'v) Distinction \<times> 'v Record option \<times> error option) option" where
  "Callback X d r =
     (case fieldsLoop X (hashSeed d) (columns d) r 0 (Fields r) ([], [], []) of
        None \<Rightarrow> None
      | Some (distinctFields, distinctFieldHashes, distinctArrays) \<Rightarrow>
          (let resBuilders = map (\<lambda>arr. []) distinctArrays;
               numRows = NumRows r;
               colHashes = map (hashArray X) distinctArrays
           in case rowsLoop X (zip distinctFieldHashes colHashes) distinctArrays [0..<numRows]
                     (resBuilders, 0, seen d) of
                None \<Rightarrow> None
              | Some (Some err, resBuilders', rows, seen') \<Rightarrow> Some (d\<lparr>seen := seen'\<rparr>, None, Some err)
              | Some (None, resBuilders', rows, seen') \<Rightarrow>
                  if rows = 0 then Some (d\<lparr>seen := seen'\<rparr>, None, None)
                  else
                    (let distinctRecord = \<lparr>Fields = distinctFields, Columns = resBuilders', NumRows = rows\<rparr>
                     in case next d of
                          None \<Rightarrow> None
                        | Some plan \<Rightarrow> Some (d\<lparr>seen := seen'\<rparr>, Some distinctRecord, plan distinctRecord))))"

text \<open>
  A single-threaded producer: the callbacks run one after the other, each on the operator
  the one before left. The result is the operator at the end and the records passed
  downstream, in order.
\<close>

fun Callbacks :: "('seed, 'v) Hashing \<Rightarrow> ('seed, 'v) Distinction \<Rightarrow> 'v Record list \<Rightarrow> (('seed, 'v) Distinction \<times> 'v Record list) option" where
  "Callbacks X d [] = Some (d, [])"
| "Callbacks X d (r # rs) =
     (case Callback X d r of
        None \<Rightarrow> None
      | Some (d', out, err) \<Rightarrow>
          (case Callbacks X d' rs of
             None \<Rightarrow> None
           | Some (d'', outs) \<Rightarrow> Some (d'', (case out of None \<Rightarrow> [] | Some rec \<Rightarrow> [rec]) @ outs)))"

section \<open>Notions used to state the properties\<close>

text \<open>The number of projection expressions that match a field.\<close>

definition matchCount :: "Expr list \<Rightarrow> Field \<Rightarrow> nat" where
  "matchCount cols field = length (filter (\<lambda>col. MatchColumn col (Name field)) cols)"

text \<open>
  The composite \<open>Callback\<close> computes for row \<open>i\<close> of a record: the column selection,
  then the loop over the selected columns.
\<close>

definition rowComposite :: "('seed, 'v) Hashing \<Rightarrow> ('seed, 'v) Distinction \<Rightarrow> 'v Record \<Rightarrow> nat \<Rightarrow> uint64 option" where
  "rowComposite X d r i =
     (case fieldsLoop X (hashSeed d) (columns d) r 0 (Fields r) ([], [], []) of
        None \<Rightarrow> None
      | Some (distinctFields, distinctFieldHashes, distinctArrays) \<Rightarrow>
          compositeLoop X i (zip distinctFieldHashes (map (hashArray X) distinctArrays)) 0)"

text \<open>
  What holds at every point of a run of \<open>Persist\<close> whose \<open>Upload\<close> consumes its reader
  and succeeds: the caller is past \<open>Upload\<close> only when the goroutine is done, and the
  goroutine is done only with \<open>err\<close> assigned.
\<close>

definition persist_inv :: "error option \<Rightarrow> persist_state \<Rightarrow> bool" where
  "persist_inv ser s \<longleftrightarrow>
     (case goroutine s of
        G_Serialize \<Rightarrow> main s = M_Upload
      | G_Assign e \<Rightarrow> e = ser \<and> main s = M_Upload
      | G_Close \<Rightarrow> err_var s = ser \<and> main s = M_Upload
      | G_Done \<Rightarrow> err_var s = ser) \<and>
     (case main s of
        M_Upload \<Rightarrow> True
      | M_Uploaded u \<Rightarrow> u = None
      | M_Returned r \<Rightarrow> r = (case ser of None \<Rightarrow> None | Some e \<Rightarrow> Some (''failed to serialize block: '' @ e)))"

text \<open>
  The composites of the first \<open>n\<close> rows of a list of columns, computed as \<open>Callback\<close>
  computes them; those of the rows of a record under a seed; the rows of a record as
  tuples (the fields and the values at the row); the composite of one tuple; a record as
  \<open>array.NewRecord\<close> accepts it (one column per field, no column shorter than the
  number of rows); and what the loop over the rows maintains on its builders, \<open>rows\<close>
  and \<open>seen\<close>, \<open>S0\<close> being the set \<open>seen\<close> the callback started from.
\<close>

definition rowsComposites :: "('seed, 'v) Hashing \<Rightarrow> uint64 list \<Rightarrow> 'v Array list \<Rightarrow> nat \<Rightarrow> uint64 option list" where
  "rowsComposites X fieldHashes cols n =
     map (\<lambda>k. compositeLoop X k (zip fieldHashes (map (hashArray X) cols)) 0) [0..<n]"

definition recordComposites :: "('seed, 'v) Hashing \<Rightarrow> 'seed \<Rightarrow> 'v Record \<Rightarrow> uint64 option list" where
  "recordComposites X seed R =
     rowsComposites X (map (\<lambda>f. scalar_Hash X seed (Name f)) (Fields R)) (Columns R) (NumRows R)"

definition recordTuples :: "'v Record \<Rightarrow> (Field list \<times> 'v option list) list" where
  "recordTuples R = map (\<lambda>k. (Fields R, map (\<lambda>c. c ! k) (Columns R))) [0..<NumRows R]"

definition tupleComposite :: "('seed, 'v) Hashing \<Rightarrow> 'seed \<Rightarrow> Field list \<times> 'v option list \<Rightarrow> uint64 option" where
  "tupleComposite X seed t =
     compositeLoop X 0 (zip (map (\<lambda>f. scalar_Hash X seed (Name f)) (fst t)) (map (\<lambda>c. hashArray X [c]) (snd t))) 0"

definition wfRecord :: "'v Record \<Rightarrow> bool" where
  "wfRecord r \<longleftrightarrow> length (Columns r) = length (Fields r) \<and> (\<forall>c \<in> set (Columns r). NumRows r \<le> length c)"

definition rows_inv :: "('seed, 'v) Hashing \<Rightarrow> uint64 list \<Rightarrow> nat \<Rightarrow> uint64 set \<Rightarrow> 'v Array list \<times> nat \<times> uint64 set \<Rightarrow> bool" where
  "rows_inv X fieldHashes n S0 st \<longleftrightarrow>
     (case st of (bs, rows, S) \<Rightarrow>
        length bs = n \<and> (\<forall>b \<in> set bs. length b = rows)
      \<and> distinct (rowsComposites X fieldHashes bs rows)
      \<and> set (rowsComposites X fieldHashes bs rows) \<subseteq> Some ` S
      \<and> set (rowsComposites X fieldHashes bs rows) \<inter> Some ` S0 = {}
      \<and> S0 \<subseteq> S)"

section \<open>Example inputs\<close>

text \<open>
  A table \<open>T\<close> with two blocks \<open>A\<close> (time 1, two row groups) and \<open>B\<close> (time 2, one
  row group) in a bucket whose range streams deliver their bytes in two pieces.
\<close>

definition ex_Base :: "string \<Rightarrow> string" where
  "ex_Base p = rev (takeWhile (\<lambda>c. c \<noteq> CHR ''/'') (rev p))"

definition ex_Join :: "string list \<Rightarrow> string" where
  "ex_Join ps = (case ps of [] \<Rightarrow> [] | p # qs \<Rightarrow> foldl (\<lambda>a b. a @ ''/'' @ b) p qs)"

definition ex_Libs :: "(nat, nat list, nat) Libs" where
  "ex_Libs =
     \<lparr>filepath_Base = ex_Base, filepath_Join = ex_Join,
      ulid_Parse = (\<lambda>s. if s = ''A'' then Inr 1 else if s = ''B'' then Inr 2
                         else Inl ''ulid: bad data size when unmarshaling''),
      ulid_Time = of_nat,
      ulid_String = (\<lambda>u. if u = 1 then ''A'' else ''B''),
      parquet_OpenFile = (\<lambda>b sz. if reader_name b = ''T/A/data.parquet'' then Inr [10, 11] else Inr [20]),
      NewSerializedBuffer = Inr\<rparr>"

definition ex_object :: "byte list" where
  "ex_object = [1, 2, 3, 4, 5, 6]"

definition ex_Bucket :: Bucket where
  "ex_Bucket =
     \<lparr>Iter = (\<lambda>dir. ([''T/A'', ''T/B''], None)),
      Attributes = (\<lambda>n. Inr 6),
      GetRange = (\<lambda>n off len.
         Inr \<lparr>pending = [take 2 (take (nat len) (drop (nat off) ex_object)),
                           drop 2 (take (nat len) (drop (nat off) ex_object))],
              final = ''EOF'', closeResult = None\<rparr>),
      Upload = (\<lambda>n. (True, None))\<rparr>"

text \<open>A bucket whose range streams fail at the first \<open>Read\<close> and close without error.\<close>

definition ex_broken_Bucket :: Bucket where
  "ex_broken_Bucket =
     ex_Bucket\<lparr>GetRange := (\<lambda>n off len.
        Inr \<lparr>pending = [], final = ''connection reset by peer'', closeResult = None\<rparr>)\<rparr>"

definition ex_Table :: Table where
  "ex_Table = \<lparr>table_name = ''T'', table_db = \<lparr>db_bucket = Some ex_Bucket, db_ignoreStorageOnQuery = False\<rparr>\<rparr>"

definition ex_Table_no_bucket :: Table where
  "ex_Table_no_bucket = \<lparr>table_name = ''T'', table_db = \<lparr>db_bucket = None, db_ignoreStorageOnQuery = False\<rparr>\<rparr>"

text \<open>A block whose serialisation fails.\<close>

definition ex_Block :: "nat TableBlock" where
  "ex_Block = \<lparr>block_table = ex_Table, block_ulid = 1, block_Serialize = Some ''no space left on device''\<rparr>"

definition ex_Block_no_bucket :: "nat TableBlock" where
  "ex_Block_no_bucket = \<lparr>block_table = ex_Table_no_bucket, block_ulid = 1, block_Serialize = None\<rparr>"

text \<open>Hash functions, two fields, an expression that matches the column \<open>a\<close>, and records.\<close>

definition ex_Hashing :: "(nat, nat) Hashing" where
  "ex_Hashing =
     \<lparr>scalar_Hash = (\<lambda>seed name. of_nat (seed + length name)),
      hashCombine = (\<lambda>a b. 31 * a + b),
      hashValue = (\<lambda>v. of_nat v + 1),
      appendError = (\<lambda>arr i. None)\<rparr>"

definition field_a :: Field where
  "field_a = \<lparr>Name = ''a'', Type = ''int64'', Nullable = True\<rparr>"

definition field_b :: Field where
  "field_b = \<lparr>Name = ''b'', Type = ''int64'', Nullable = True\<rparr>"

definition col_a :: Expr where
  "col_a = \<lparr>MatchColumn = (\<lambda>n. n = ''a'')\<rparr>"

definition ex_Record :: "nat Record" where
  "ex_Record =
     \<lparr>Fields = [field_a, field_b],
      Columns = [[Some 1, Some 1, Some 2, Some 2, Some 3], [Some 10, Some 11, Some 12, Some 13, Some 14]],
      NumRows = 5\<rparr>"

definition ex_nulls :: "nat Record" where
  "ex_nulls =
     \<lparr>Fields = [field_a, field_b],
      Columns = [[None, None, None], [Some 1, Some 2, Some 3]],
      NumRows = 3\<rparr>"

definition ex_unmatched :: "nat Record" where
  "ex_unmatched = \<lparr>Fields = [field_b], Columns = [[Some 1, Some 2]], NumRows = 2\<rparr>"

section \<open>Properties of the range-read adapter\<close>

text \<open>
  Claim C9. Whenever \<open>GetRange\<close> succeeds, the error \<open>ReadAt\<close> returns is the result
  of closing the stream, whatever the inner \<open>Read\<close> returned: the buffer and the count
  are those of \<open>Read\<close>, its error is dropped, so a failure of \<open>Read\<close> is not
  observable in the error of \<open>ReadAt\<close>.
\<close>

theorem ReadAt_returns_Close_error:
  assumes "GetRange (reader_Bucket b) (reader_name b) off (int (length p)) = Inr rc"
    and "Read rc p = ((p', n, readErr), rc')"
  shows "fst (ReadAt b p off) = (p', n, Close rc') \<and> Close rc' = closeResult rc"
  using assms by (auto simp: ReadAt_def Read_def Close_def split: list.splits if_splits)

theorem ReadAt_returns_Close_error_witness:
  "fst (ReadAt \<lparr>reader_name = ''T/A/data.parquet'', reader_Bucket = ex_broken_Bucket\<rparr> [0, 0] 0)
     = ([0, 0], 0, None)"
proof -
  let ?b = "\<lparr>reader_name = ''T/A/data.parquet'', reader_Bucket = ex_broken_Bucket\<rparr>"
  let ?rc = "\<lparr>pending = [], final = ''connection reset by peer'', closeResult = None\<rparr>"
  have g: "GetRange (reader_Bucket ?b) (reader_name ?b) 0 (int (length [0::byte, 0])) = Inr ?rc"
    by (simp add: ex_broken_Bucket_def)
  have r: "Read ?rc [0, 0] = (([0, 0], 0, Some ''connection reset by peer''), ?rc)"
    by (simp add: Read_def)
  from ReadAt_returns_Close_error [OF g r] show ?thesis
    by (simp add: Close_def)
qed

text \<open>
  Claim C4, evaluated where it fails. The object is \<open>[1, 2, 3, 4, 5, 6]\<close>; a positioned
  read of 4 bytes at offset 1 asks for \<open>[2, 3, 4, 5]\<close>. The stream delivers 2 bytes at
  its first \<open>Read\<close>: \<open>ReadAt\<close> makes one \<open>GetRange\<close>, one \<open>Read\<close> and one
  \<open>Close\<close>, and returns 2 bytes read and no error, the rest of the buffer untouched.
\<close>

theorem ReadAt_single_Read:
  "ReadAt \<lparr>reader_name = ''T/A/data.parquet'', reader_Bucket = ex_Bucket\<rparr> [0, 0, 0, 0] 1 =
     (([2, 3, 0, 0], 2, None), [GetRange_call ''T/A/data.parquet'' 1 4, Read_call 4, Close_call])"
  by (simp add: ReadAt_def ex_Bucket_def ex_object_def Read_def Close_def)

section \<open>Properties of the block iterator\<close>

lemma blockCallback_event:
  assumes "blockCallback L bkt filt iterator H d st = (r, st', evs)" and "e \<in> set evs"
  shows "\<exists>u. ulid_Parse L (filepath_Base L d) = Inr u \<and> \<not> (H \<noteq> 0 \<and> H \<le> ulid_Time L u)"
  using assms
  by (auto simp: blockCallback_def Let_def split: sum.splits if_splits prod.splits)

lemma iterChildren_event:
  assumes "iterChildren f cs listErr st = (r, st', evs)" and "Block d e \<in> set evs"
  shows "\<exists>st0 r0 st1 evs0. f d st0 = (r0, st1, evs0) \<and> e \<in> set evs0"
  using assms
proof (induction cs arbitrary: st r st' evs)
  case Nil
  then show ?case by simp
next
  case (Cons c cs)
  obtain r1 st1 evs1 where f: "f c st = (r1, st1, evs1)" by (cases "f c st") auto
  show ?case
  proof (cases r1)
    case (Some err)
    with Cons.prems f have "evs = map (Block c) evs1" by simp
    with Cons.prems(2) have "d = c" "e \<in> set evs1" by auto
    with f show ?thesis by blast
  next
    case None
    obtain r2 st2 evs2 where rest: "iterChildren f cs listErr st1 = (r2, st2, evs2)"
      by (cases "iterChildren f cs listErr st1") auto
    with Cons.prems f None have "evs = map (Block c) evs1 @ evs2" by simp
    with Cons.prems(2) consider "d = c" "e \<in> set evs1" | "Block d e \<in> set evs2" by auto
    then show ?thesis
    proof cases
      case 1
      with f show ?thesis by blast
    next
      case 2
      from Cons.IH [OF rest 2] show ?thesis .
    qed
  qed
qed

lemma iterChildren_all_visited:
  assumes "iterChildren f cs listErr st = (None, st', evs)" and "d \<in> set cs"
  shows "\<exists>st0 st1 evs0. f d st0 = (None, st1, evs0) \<and> Block d ` set evs0 \<subseteq> set evs"
  using assms
proof (induction cs arbitrary: st st' evs)
  case Nil
  then show ?case by simp
next
  case (Cons c cs)
  obtain r1 st1 evs1 where f: "f c st = (r1, st1, evs1)" by (cases "f c st") auto
  obtain r2 st2 evs2 where rest: "iterChildren f cs listErr st1 = (r2, st2, evs2)"
    by (cases "iterChildren f cs listErr st1") auto
  from Cons.prems(1) f have r1: "r1 = None" by (cases r1) auto
  with Cons.prems(1) f rest have r2: "r2 = None" and evs: "evs = map (Block c) evs1 @ evs2" by auto
  show ?case
  proof (cases "d = c")
    case True
    with f r1 evs show ?thesis by auto
  next
    case False
    with Cons.prems(2) have "d \<in> set cs" by simp
    from Cons.IH [OF rest [unfolded r2] this] obtain st0 st3 evs0
      where "f d st0 = (None, st3, evs0)" "Block d ` set evs0 \<subseteq> set evs2" by blast
    moreover from evs have "set evs2 \<subseteq> set evs" by simp
    ultimately show ?thesis by blast
  qed
qed

lemma blockCallback_not_skipped:
  assumes "blockCallback L bkt filt iterator 0 d st = (None, st', evs)"
  shows "Attributes_call (filepath_Join L [d, ''data.parquet'']) \<in> set evs"
  using assms
  by (auto simp: blockCallback_def Let_def split: sum.splits if_splits prod.splits)

lemma blockCallback_time_irrelevant:
  "blockCallback (L\<lparr>ulid_Time := tm\<rparr>) bkt filt iterator 0 = blockCallback L bkt filt iterator 0"
  by (intro ext) (simp add: blockCallback_def Let_def split: sum.splits)

lemma IterateBucketBlocks_time_irrelevant:
  "IterateBucketBlocks (L\<lparr>ulid_Time := tm\<rparr>) t filt iterator 0 s = IterateBucketBlocks L t filt iterator 0 s"
  by (simp add: IterateBucketBlocks_def blockCallback_time_irrelevant)

text \<open>
  Claim C5. With a horizon \<open>H > 0\<close>, every call made for a block (the stat of its
  attributes, the opening of its file, the evaluation or the yield of one of its row
  groups) is made for a block whose identifier parses and whose time is below \<open>H\<close>. With
  \<open>H = 0\<close> the times play no part: the result is the same whatever \<open>Time\<close> returns,
  and when the iteration succeeds every listed block has been stat'ed.
\<close>

theorem IterateBucketBlocks_horizon:
  assumes run: "IterateBucketBlocks L t filt iterator H s = (err, s', evs)"
  shows "(H \<noteq> 0 \<longrightarrow>
            (\<forall>d e. Block d e \<in> set evs \<longrightarrow>
               (\<exists>u. ulid_Parse L (filepath_Base L d) = Inr u \<and> ulid_Time L u < H)))
       \<and> (H = 0 \<longrightarrow> IterateBucketBlocks (L\<lparr>ulid_Time := tm\<rparr>) t filt iterator H s = (err, s', evs))
       \<and> (H = 0 \<and> err = None \<and> \<not> db_ignoreStorageOnQuery (table_db t) \<longrightarrow>
            (\<forall>bkt. db_bucket (table_db t) = Some bkt \<longrightarrow>
               (\<forall>d \<in> set (fst (Iter bkt (table_name t))).
                  Block d (Attributes_call (filepath_Join L [d, ''data.parquet''])) \<in> set evs)))"
proof (intro conjI impI allI ballI)
  fix d e
  assume H: "H \<noteq> 0" and ev: "Block d e \<in> set evs"
  from run ev obtain bkt where bkt: "db_bucket (table_db t) = Some bkt"
    by (cases "db_bucket (table_db t)") (auto simp: IterateBucketBlocks_def)
  obtain cs listErr where it: "Iter bkt (table_name t) = (cs, listErr)"
    by (cases "Iter bkt (table_name t)") auto
  obtain r st1 evs1 where ch: "iterChildren (blockCallback L bkt filt iterator H) cs listErr (0, s) = (r, st1, evs1)"
    by (cases "iterChildren (blockCallback L bkt filt iterator H) cs listErr (0, s)") auto
  from run ev bkt it ch have "Block d e \<in> set evs1"
    by (auto simp: IterateBucketBlocks_def bucket_Iter_def split: if_splits prod.splits)
  from iterChildren_event [OF ch this] obtain st0 r0 st2 evs0
    where "blockCallback L bkt filt iterator H d st0 = (r0, st2, evs0)" "e \<in> set evs0" by blast
  from blockCallback_event [OF this] H
  show "\<exists>u. ulid_Parse L (filepath_Base L d) = Inr u \<and> ulid_Time L u < H"
    by (auto simp: not_le)
next
  assume "H = 0"
  with run show "IterateBucketBlocks (L\<lparr>ulid_Time := tm\<rparr>) t filt iterator H s = (err, s', evs)"
    by (simp add: IterateBucketBlocks_time_irrelevant)
next
  fix bkt d
  assume a: "H = 0 \<and> err = None \<and> \<not> db_ignoreStorageOnQuery (table_db t)"
    and bkt: "db_bucket (table_db t) = Some bkt"
    and d: "d \<in> set (fst (Iter bkt (table_name t)))"
  obtain cs listErr where it: "Iter bkt (table_name t) = (cs, listErr)"
    by (cases "Iter bkt (table_name t)") auto
  obtain r st1 evs1 where ch: "iterChildren (blockCallback L bkt filt iterator 0) cs listErr (0, s) = (r, st1, evs1)"
    by (cases "iterChildren (blockCallback L bkt filt iterator 0) cs listErr (0, s)") auto
  from run a bkt it ch have r: "r = None" and sub: "set evs1 \<subseteq> set evs"
    by (auto simp: IterateBucketBlocks_def bucket_Iter_def split: if_splits prod.splits)
  from d it have "d \<in> set cs" by simp
  from iterChildren_all_visited [OF ch [unfolded r] this] obtain st0 st2 evs0
    where cb: "blockCallback L bkt filt iterator 0 d st0 = (None, st2, evs0)"
      and in_evs: "Block d ` set evs0 \<subseteq> set evs1" by blast
  from blockCallback_not_skipped [OF cb] in_evs sub
  show "Block d (Attributes_call (filepath_Join L [d, ''data.parquet''])) \<in> set evs" by blast
qed

theorem IterateBucketBlocks_horizon_witness:
  "IterateBucketBlocks ex_Libs ex_Table (\<lambda>rg. (True, None)) (\<lambda>rg s. (True, s @ [rg])) 2 [] =
     (None, [10, 11],
      [Iter_call ''T'',
       Block ''T/A'' (Attributes_call ''T/A/data.parquet''), Block ''T/A'' (OpenFile_call ''T/A/data.parquet''),
       Block ''T/A'' (Eval_call 0), Block ''T/A'' (Yield_call 0),
       Block ''T/A'' (Eval_call 1), Block ''T/A'' (Yield_call 1),
       Log_read_blocks 1])
   \<and> (\<exists>u. ulid_Parse ex_Libs (filepath_Base ex_Libs ''T/A'') = Inr u \<and> ulid_Time ex_Libs u < 2)
   \<and> IterateBucketBlocks ex_Libs ex_Table (\<lambda>rg. (True, None)) (\<lambda>rg s. (True, s @ [rg])) 0 [] =
     (None, [10, 11, 20],
      [Iter_call ''T'',
       Block ''T/A'' (Attributes_call ''T/A/data.parquet''), Block ''T/A'' (OpenFile_call ''T/A/data.parquet''),
       Block ''T/A'' (Eval_call 0), Block ''T/A'' (Yield_call 0),
       Block ''T/A'' (Eval_call 1), Block ''T/A'' (Yield_call 1),
       Block ''T/B'' (Attributes_call ''T/B/data.parquet''), Block ''T/B'' (OpenFile_call ''T/B/data.parquet''),
       Block ''T/B'' (Eval_call 0), Block ''T/B'' (Yield_call 0),
       Log_read_blocks 2])
   \<and> Block ''T/B'' (Attributes_call (filepath_Join ex_Libs [''T/B'', ''data.parquet'']))
       \<in> set (snd (snd (IterateBucketBlocks ex_Libs ex_Table (\<lambda>rg. (True, None)) (\<lambda>rg s. (True, s @ [rg])) 0 [])))"
proof -
  let ?evs2 = "[Iter_call ''T'',
       Block ''T/A'' (Attributes_call ''T/A/data.parquet''), Block ''T/A'' (OpenFile_call ''T/A/data.parquet''),
       Block ''T/A'' (Eval_call 0), Block ''T/A'' (Yield_call 0),
       Block ''T/A'' (Eval_call 1), Block ''T/A'' (Yield_call 1),
       Log_read_blocks 1]"
  let ?evs0 = "[Iter_call ''T'',
       Block ''T/A'' (Attributes_call ''T/A/data.parquet''), Block ''T/A'' (OpenFile_call ''T/A/data.parquet''),
       Block ''T/A'' (Eval_call 0), Block ''T/A'' (Yield_call 0),
       Block ''T/A'' (Eval_call 1), Block ''T/A'' (Yield_call 1),
       Block ''T/B'' (Attributes_call ''T/B/data.parquet''), Block ''T/B'' (OpenFile_call ''T/B/data.parquet''),
       Block ''T/B'' (Eval_call 0), Block ''T/B'' (Yield_call 0),
       Log_read_blocks 2]"
  have run2: "IterateBucketBlocks ex_Libs ex_Table (\<lambda>rg. (True, None)) (\<lambda>rg s. (True, s @ [rg])) 2 []
                = (None, [10, 11], ?evs2)"
    by code_simp
  have run0: "IterateBucketBlocks ex_Libs ex_Table (\<lambda>rg. (True, None)) (\<lambda>rg s. (True, s @ [rg])) 0 []
                = (None, [10, 11, 20], ?evs0)"
    by code_simp
  from IterateBucketBlocks_horizon [OF run2]
  have "\<forall>d e. Block d e \<in> set ?evs2 \<longrightarrow>
          (\<exists>u. ulid_Parse ex_Libs (filepath_Base ex_Libs d) = Inr u \<and> ulid_Time ex_Libs u < 2)"
    by simp
  moreover have "Block ''T/A'' (Eval_call 0) \<in> set ?evs2" by simp
  ultimately have below: "\<exists>u. ulid_Parse ex_Libs (filepath_Base ex_Libs ''T/A'') = Inr u \<and> ulid_Time ex_Libs u < 2"
    by blast
  have bkt: "db_bucket (table_db ex_Table) = Some ex_Bucket"
    and ig: "\<not> db_ignoreStorageOnQuery (table_db ex_Table)"
    and ch: "''T/B'' \<in> set (fst (Iter ex_Bucket (table_name ex_Table)))"
    by (simp_all add: ex_Table_def ex_Bucket_def)
  from IterateBucketBlocks_horizon [OF run0]
  have "\<forall>bkt. db_bucket (table_db ex_Table) = Some bkt \<longrightarrow>
          (\<forall>d \<in> set (fst (Iter bkt (table_name ex_Table))).
             Block d (Attributes_call (filepath_Join ex_Libs [d, ''data.parquet''])) \<in> set ?evs0)"
    using ig by simp
  with bkt ch
  have "Block ''T/B'' (Attributes_call (filepath_Join ex_Libs [''T/B'', ''data.parquet''])) \<in> set ?evs0"
    by blast
  with run2 run0 below show ?thesis by simp
qed

text \<open>
  Claim C1, evaluated where it fails. The filter lets every row group through and the
  caller's \<open>iterator\<close> records the row group and returns stop at every call. At the
  first row group of block \<open>A\<close> the callback returns \<open>err\<close>, which is \<open>nil\<close> there:
  the second row group of \<open>A\<close> is not evaluated, but \<open>bucket.Iter\<close> sees a success and
  goes on to block \<open>B\<close>, which is stat'ed, opened, evaluated and yielded.
\<close>

theorem IterateBucketBlocks_stop_goes_on:
  "IterateBucketBlocks ex_Libs ex_Table (\<lambda>rg. (True, None)) (\<lambda>rg s. (False, s @ [rg])) 0 [] =
    (None, [10, 20],
     [Iter_call ''T'',
      Block ''T/A'' (Attributes_call ''T/A/data.parquet''), Block ''T/A'' (OpenFile_call ''T/A/data.parquet''),
      Block ''T/A'' (Eval_call 0), Block ''T/A'' (Yield_call 0),
      Block ''T/B'' (Attributes_call ''T/B/data.parquet''), Block ''T/B'' (OpenFile_call ''T/B/data.parquet''),
      Block ''T/B'' (Eval_call 0), Block ''T/B'' (Yield_call 0),
      Log_read_blocks 2])"
  by code_simp

section \<open>Properties of the persister\<close>

lemma persist_step_inv:
  assumes "persist_inv ser s"
  shows "persist_inv ser (persist_step ser (True, None) th s)"
  using assms
  by (cases th; cases "goroutine s"; cases "main s")
     (auto simp: persist_inv_def split: option.splits)

lemma persist_run_inv:
  assumes "persist_inv ser s"
  shows "persist_inv ser (persist_run ser (True, None) sch s)"
  using assms by (induction sch arbitrary: s) (auto simp: persist_step_inv)

lemma persist_run_upload_failed:
  assumes "main s = M_Upload \<or> main s = M_Uploaded (Some u) \<or> main s = M_Returned (Some (''failed to upload block '' @ u))"
  shows "main (persist_run ser (dr, Some u) sch s) = M_Upload
       \<or> main (persist_run ser (dr, Some u) sch s) = M_Uploaded (Some u)
       \<or> main (persist_run ser (dr, Some u) sch s) = M_Returned (Some (''failed to upload block '' @ u))"
  using assms
proof (induction sch arbitrary: s)
  case Nil
  then show ?case by simp
next
  case (Cons th sch)
  have "main (persist_step ser (dr, Some u) th s) = M_Upload
      \<or> main (persist_step ser (dr, Some u) th s) = M_Uploaded (Some u)
      \<or> main (persist_step ser (dr, Some u) th s) = M_Returned (Some (''failed to upload block '' @ u))"
    using Cons.prems by (cases th; cases "goroutine s") auto
  from Cons.IH [OF this] show ?case by simp
qed

lemma persist_run_returns:
  "\<exists>r. main (persist_run ser up [Goroutine, Goroutine, Goroutine, Main, Main]
                \<lparr>main = M_Upload, goroutine = G_Serialize, err_var = None\<rparr>) = M_Returned r"
  by (cases up; cases "snd up"; cases ser) auto

text \<open>
  Claim C3. The error of \<open>Persist\<close> tells an upload failure from a serialisation
  failure: when \<open>Upload\<close> fails, every run that returns returns "failed to upload block"
  with the cause; when \<open>Upload\<close> has consumed the body the serialiser wrote and succeeds
  while the serialiser failed, every run that returns returns "failed to serialize block"
  with the serialiser's error, never success; with neither failure it returns success.
  \<open>Persist\<close> does return (under the schedule that lets the goroutine finish first), and
  the two messages differ whatever the causes.
\<close>

theorem Persist_error_contract:
  assumes bkt: "db_bucket (table_db (block_table t)) = Some bkt"
    and fileName: "fileName = filepath_Join L [table_name (block_table t), ulid_String L (block_ulid t), ''data.parquet'']"
  shows "(\<forall>dr u sch r. Upload bkt fileName = (dr, Some u) \<and> fst (Persist L t sch) = Some r
            \<longrightarrow> r = Some (''failed to upload block '' @ u))
       \<and> (\<forall>e sch r. Upload bkt fileName = (True, None) \<and> block_Serialize t = Some e \<and> fst (Persist L t sch) = Some r
            \<longrightarrow> r = Some (''failed to serialize block: '' @ e))
       \<and> (\<forall>sch r. Upload bkt fileName = (True, None) \<and> block_Serialize t = None \<and> fst (Persist L t sch) = Some r
            \<longrightarrow> r = None)
       \<and> fst (Persist L t [Goroutine, Goroutine, Goroutine, Main, Main]) \<noteq> None
       \<and> (\<forall>u e. ''failed to upload block '' @ u \<noteq> ''failed to serialize block: '' @ e)"
proof (intro conjI allI impI)
  fix dr u sch r
  assume a: "Upload bkt fileName = (dr, Some u) \<and> fst (Persist L t sch) = Some r"
  let ?s = "persist_run (block_Serialize t) (dr, Some u) sch \<lparr>main = M_Upload, goroutine = G_Serialize, err_var = None\<rparr>"
  from a bkt fileName have "main ?s = M_Returned r"
    by (auto simp: Persist_def Let_def split: main_pc.splits)
  moreover have "main ?s = M_Upload \<or> main ?s = M_Uploaded (Some u)
      \<or> main ?s = M_Returned (Some (''failed to upload block '' @ u))"
    by (rule persist_run_upload_failed) simp
  ultimately show "r = Some (''failed to upload block '' @ u)" by auto
next
  fix e sch r
  assume a: "Upload bkt fileName = (True, None) \<and> block_Serialize t = Some e \<and> fst (Persist L t sch) = Some r"
  let ?s = "persist_run (Some e) (True, None) sch \<lparr>main = M_Upload, goroutine = G_Serialize, err_var = None\<rparr>"
  from a bkt fileName have "main ?s = M_Returned r"
    by (auto simp: Persist_def Let_def split: main_pc.splits)
  moreover have "persist_inv (Some e) ?s"
    by (rule persist_run_inv) (simp add: persist_inv_def)
  ultimately show "r = Some (''failed to serialize block: '' @ e)"
    by (simp add: persist_inv_def)
next
  fix sch r
  assume a: "Upload bkt fileName = (True, None) \<and> block_Serialize t = None \<and> fst (Persist L t sch) = Some r"
  let ?s = "persist_run None (True, None) sch \<lparr>main = M_Upload, goroutine = G_Serialize, err_var = None\<rparr>"
  from a bkt fileName have "main ?s = M_Returned r"
    by (auto simp: Persist_def Let_def split: main_pc.splits)
  moreover have "persist_inv None ?s"
    by (rule persist_run_inv) (simp add: persist_inv_def)
  ultimately show "r = None"
    by (simp add: persist_inv_def)
next
  from persist_run_returns [of "block_Serialize t" "Upload bkt fileName"] bkt fileName
  show "fst (Persist L t [Goroutine, Goroutine, Goroutine, Main, Main]) \<noteq> None"
    by (auto simp: Persist_def Let_def)
next
  fix u e
  show "''failed to upload block '' @ u \<noteq> ''failed to serialize block: '' @ e" by simp
qed

theorem Persist_error_contract_witness:
  "fst (Persist ex_Libs ex_Block [Goroutine, Goroutine, Goroutine, Main, Main])
     = Some (Some ''failed to serialize block: no space left on device'')"
proof -
  let ?fileName = "filepath_Join ex_Libs [table_name (block_table ex_Block), ulid_String ex_Libs (block_ulid ex_Block), ''data.parquet'']"
  have bkt: "db_bucket (table_db (block_table ex_Block)) = Some ex_Bucket"
    by (simp add: ex_Block_def ex_Table_def)
  have up: "Upload ex_Bucket ?fileName = (True, None)"
    by (simp add: ex_Bucket_def)
  have ser: "block_Serialize ex_Block = Some ''no space left on device''"
    by (simp add: ex_Block_def)
  note c = Persist_error_contract [OF bkt refl, where L = ex_Libs]
  from c obtain r where r: "fst (Persist ex_Libs ex_Block [Goroutine, Goroutine, Goroutine, Main, Main]) = Some r"
    by blast
  with c up ser have "r = Some (''failed to serialize block: '' @ ''no space left on device'')"
    by blast
  with r show ?thesis by simp
qed

text \<open>
  The read of \<open>err\<close> is synchronised by the end of file only: an \<open>Upload\<close> that
  returns success without consuming its reader lets the caller test \<open>err\<close> before the
  goroutine has assigned it.
\<close>

lemma Persist_unsynchronised:
  assumes "db_bucket (table_db (block_table t)) = Some bkt"
    and "Upload bkt (filepath_Join L [table_name (block_table t), ulid_String L (block_ulid t), ''data.parquet'']) = (False, None)"
  shows "fst (Persist L t [Main, Main]) = Some None"
  using assms by (simp add: Persist_def Let_def)

text \<open>
  Claim C8. With no bucket configured, \<open>Persist\<close> returns success at once and makes
  no call on a bucket, and \<open>IterateBucketBlocks\<close> returns success with no call made:
  \<open>iterator\<close> is not invoked and the caller's state is unchanged.
\<close>

theorem no_bucket_noop:
  "(db_bucket (table_db (block_table tb)) = None \<longrightarrow> Persist L tb schedule = (Some None, []))
 \<and> (db_bucket (table_db t) = None \<longrightarrow> IterateBucketBlocks L2 t filt iterator H s = (None, s, []))"
  by (simp add: Persist_def IterateBucketBlocks_def)

theorem no_bucket_noop_witness:
  "Persist ex_Libs ex_Block_no_bucket [] = (Some None, [])
 \<and> IterateBucketBlocks ex_Libs ex_Table_no_bucket (\<lambda>rg. (True, None)) (\<lambda>rg s. (True, s @ [rg])) 0 []
      = (None, [], [])"
  using no_bucket_noop [of ex_Block_no_bucket ex_Libs "[]" ex_Table_no_bucket ex_Libs
      "\<lambda>rg. (True, None)" "\<lambda>rg s. (True, s @ [rg])" 0 "[]"]
  by (simp add: ex_Block_no_bucket_def ex_Table_no_bucket_def)

section \<open>Properties of the distinct operator\<close>

subsection \<open>The column selection\<close>

lemma columnsLoop_Some:
  assumes "columnsLoop X seed r i field cols (fs, hs, as) = Some (fs', hs', as')"
  shows "fs' = fs @ replicate (matchCount cols field) field
       \<and> hs' = hs @ replicate (matchCount cols field) (scalar_Hash X seed (Name field))
       \<and> as' = as @ replicate (matchCount cols field) (Columns r ! i)
       \<and> (0 < matchCount cols field \<longrightarrow> i < length (Columns r))"
  using assms
proof (induction cols arbitrary: fs hs as)
  case Nil
  then show ?case by (simp add: matchCount_def)
next
  case (Cons col cols)
  show ?case
  proof (cases "MatchColumn col (Name field)")
    case True
    with Cons.prems have i: "i < length (Columns r)" by (simp split: if_splits)
    with Cons.prems True
    have "columnsLoop X seed r i field cols
            (fs @ [field], hs @ [scalar_Hash X seed (Name field)], as @ [Columns r ! i]) = Some (fs', hs', as')"
      by simp
    from Cons.IH [OF this] True i show ?thesis
      by (simp add: matchCount_def replicate_app_Cons_same)
  next
    case False
    with Cons.prems have "columnsLoop X seed r i field cols (fs, hs, as) = Some (fs', hs', as')"
      by simp
    from Cons.IH [OF this] False show ?thesis by (simp add: matchCount_def)
  qed
qed

lemma columnsLoop_total:
  assumes "i < length (Columns r)"
  shows "columnsLoop X seed r i field cols sel \<noteq> None"
  using assms by (induction cols arbitrary: sel) (auto split: prod.splits)

lemma columnsLoop_no_match:
  assumes "\<forall>col \<in> set cols. \<not> MatchColumn col (Name field)"
  shows "columnsLoop X seed r i field cols sel = Some sel"
  using assms by (induction cols arbitrary: sel) (auto split: prod.splits)

lemma fieldsLoop_Some:
  assumes "fieldsLoop X seed cols r i fs0 (fs, hs, as) = Some (fs', hs', as')"
  shows "fs' = fs @ concat (map (\<lambda>f. replicate (matchCount cols f) f) fs0)
       \<and> hs' = hs @ map (\<lambda>f. scalar_Hash X seed (Name f)) (concat (map (\<lambda>f. replicate (matchCount cols f) f) fs0))
       \<and> length as' - length as = length fs' - length fs \<and> length as \<le> length as'"
  using assms
proof (induction fs0 arbitrary: i fs hs as)
  case Nil
  then show ?case by simp
next
  case (Cons field fs0)
  from Cons.prems obtain fs1 hs1 as1
    where c: "columnsLoop X seed r i field cols (fs, hs, as) = Some (fs1, hs1, as1)"
      and f: "fieldsLoop X seed cols r (i + 1) fs0 (fs1, hs1, as1) = Some (fs', hs', as')"
    by (auto split: option.splits)
  from columnsLoop_Some [OF c] Cons.IH [OF f] show ?case by auto
qed

lemma fieldsLoop_no_match:
  assumes "\<forall>f \<in> set fs0. \<forall>col \<in> set cols. \<not> MatchColumn col (Name f)"
  shows "fieldsLoop X seed cols r i fs0 sel = Some sel"
  using assms by (induction fs0 arbitrary: i) (auto simp: columnsLoop_no_match)

lemma fieldsLoop_total:
  assumes "i + length fs0 \<le> length (Columns r)"
  shows "fieldsLoop X seed cols r i fs0 sel \<noteq> None"
  using assms
proof (induction fs0 arbitrary: i sel)
  case Nil
  then show ?case by simp
next
  case (Cons field fs0)
  then have "i < length (Columns r)" by simp
  from columnsLoop_total [OF this, of X seed field cols sel]
  obtain sel' where "columnsLoop X seed r i field cols sel = Some sel'"
    by (cases "columnsLoop X seed r i field cols sel") auto
  moreover from Cons.prems have "i + 1 + length fs0 \<le> length (Columns r)" by simp
  from Cons.IH [OF this] have "fieldsLoop X seed cols r (i + 1) fs0 sel' \<noteq> None" .
  ultimately show ?case by simp
qed

lemma Callback_selection:
  assumes "Callback X d r = Some (d', Some out, err)"
  shows "\<exists>hs as. fieldsLoop X (hashSeed d) (columns d) r 0 (Fields r) ([], [], []) = Some (Fields out, hs, as)"
  using assms
  by (auto simp: Callback_def Let_def split: option.splits prod.splits if_splits)

lemma concat_replicate_filter:
  assumes "\<forall>f \<in> set fs0. n f \<le> (1::nat)"
  shows "concat (map (\<lambda>f. replicate (n f) f) fs0) = filter (\<lambda>f. 0 < n f) fs0"
  using assms
proof (induction fs0)
  case Nil
  then show ?case by simp
next
  case (Cons f fs0)
  then have "n f = 0 \<or> n f = 1" by auto
  with Cons show ?case by auto
qed

lemma matchCount_pos: "0 < matchCount cols f \<longleftrightarrow> (\<exists>col \<in> set cols. MatchColumn col (Name f))"
  by (auto simp: matchCount_def filter_empty_conv)
lemma rowsLoop_all_seen:
  assumes "\<forall>i \<in> set idxs. \<exists>h \<in> S. compositeLoop X i hashes 0 = Some h"
  shows "rowsLoop X hashes arrays idxs (bs, rows, S) = Some (None, bs, rows, S)"
  using assms by (induction idxs) auto

lemma rowsLoop_seen_mono:
  assumes "rowsLoop X hashes arrays idxs (bs, rows, S) = Some (e, bs', rows', S')"
  shows "S \<subseteq> S'"
  using assms
proof (induction idxs arbitrary: bs rows S)
  case Nil
  then show ?case by simp
next
  case (Cons i idxs)
  from Cons.prems obtain h where h: "compositeLoop X i hashes 0 = Some h"
    by (auto split: option.splits)
  show ?case
  proof (cases "h \<in> S")
    case True
    with Cons.prems h have "rowsLoop X hashes arrays idxs (bs, rows, S) = Some (e, bs', rows', S')" by simp
    from Cons.IH [OF this] show ?thesis .
  next
    case False
    show ?thesis
    proof (cases "appendLoop X i (zip bs arrays)")
      case (Inl err)
      with Cons.prems h False show ?thesis by simp
    next
      case (Inr bs1)
      with Cons.prems h False
      have "rowsLoop X hashes arrays idxs (bs1, rows + 1, insert h S) = Some (e, bs', rows', S')" by simp
      from Cons.IH [OF this] show ?thesis by auto
    qed
  qed
qed

lemma Callback_cases:
  assumes "Callback X d r = Some (d', out, e)"
  shows "\<exists>fs hs as e' bs' rows' S'.
           fieldsLoop X (hashSeed d) (columns d) r 0 (Fields r) ([], [], []) = Some (fs, hs, as)
         \<and> rowsLoop X (zip hs (map (hashArray X) as)) as [0..<NumRows r] (map (\<lambda>arr. []) as, 0, seen d)
               = Some (e', bs', rows', S')
         \<and> d' = d\<lparr>seen := S'\<rparr>
         \<and> out = (if e' = None \<and> rows' \<noteq> 0 then Some \<lparr>Fields = fs, Columns = bs', NumRows = rows'\<rparr> else None)"
  using assms
  by (auto simp: Callback_def Let_def split: option.splits prod.splits if_splits)

lemma Callback_frame:
  assumes "Callback X d r = Some (d', out, e)"
  shows "seen d \<subseteq> seen d' \<and> columns d' = columns d \<and> hashSeed d' = hashSeed d \<and> next d' = next d"
proof -
  from Callback_cases [OF assms] obtain fs hs as e' bs' rows' S'
    where loop: "rowsLoop X (zip hs (map (hashArray X) as)) as [0..<NumRows r] (map (\<lambda>arr. []) as, 0, seen d)
               = Some (e', bs', rows', S')"
      and d': "d' = d\<lparr>seen := S'\<rparr>" by blast
  from rowsLoop_seen_mono [OF loop] d' show ?thesis by simp
qed

lemma Callbacks_frame:
  assumes "Callbacks X d rs = Some (d', outs)"
  shows "seen d \<subseteq> seen d' \<and> columns d' = columns d \<and> hashSeed d' = hashSeed d \<and> next d' = next d"
  using assms
proof (induction rs arbitrary: d outs)
  case Nil
  then show ?case by simp
next
  case (Cons r rs)
  from Cons.prems obtain d1 out e outs1
    where c: "Callback X d r = Some (d1, out, e)" and cs: "Callbacks X d1 rs = Some (d', outs1)"
    by (auto split: option.splits prod.splits)
  from Callback_frame [OF c] Cons.IH [OF cs] show ?case by auto
qed

lemma upt_first: "0 < n \<Longrightarrow> [0..<n] = 0 # [Suc 0..<n]"
  by (simp add: upt_rec)

lemma rowsLoop_empty_selection:
  assumes "0 < n"
  shows "rowsLoop X [] [] [0..<n] ([], 0, S) = Some (None, [], (if 0 \<in> S then 0 else 1), insert 0 S)"
proof (cases "0 \<in> S")
  case True
  then have "rowsLoop X [] [] [0..<n] ([], 0, S) = Some (None, [], 0, S)"
    by (intro rowsLoop_all_seen) simp
  with True show ?thesis by (simp add: insert_absorb)
next
  case False
  have rest: "rowsLoop X [] [] [Suc 0..<n] ([], Suc 0, insert 0 S) = Some (None, [], Suc 0, insert 0 S)"
    by (rule rowsLoop_all_seen) simp
  from assms False show ?thesis
    by (simp add: upt_first rest)
qed

lemma Callback_unmatched:
  assumes unmatched: "\<forall>f \<in> set (Fields r). \<forall>col \<in> set (columns d). \<not> MatchColumn col (Name f)"
  shows "0 < NumRows r \<and> 0 \<notin> seen d \<and> next d = Some plan \<longrightarrow>
           Callback X d r = Some (d\<lparr>seen := insert 0 (seen d)\<rparr>,
             Some \<lparr>Fields = [], Columns = [], NumRows = 1\<rparr>,
             plan \<lparr>Fields = [], Columns = [], NumRows = 1\<rparr>)"
    and "0 \<in> seen d \<longrightarrow> Callback X d r = Some (d, None, None)"
    and "0 < NumRows r \<and> Callback X d r = Some (d', out, e) \<longrightarrow> 0 \<in> seen d'"
proof -
  have sel: "fieldsLoop X (hashSeed d) (columns d) r 0 (Fields r) ([], [], []) = Some ([], [], [])"
    using unmatched by (rule fieldsLoop_no_match)
  show "0 < NumRows r \<and> 0 \<notin> seen d \<and> next d = Some plan \<longrightarrow>
           Callback X d r = Some (d\<lparr>seen := insert 0 (seen d)\<rparr>,
             Some \<lparr>Fields = [], Columns = [], NumRows = 1\<rparr>,
             plan \<lparr>Fields = [], Columns = [], NumRows = 1\<rparr>)"
  proof
    assume a: "0 < NumRows r \<and> 0 \<notin> seen d \<and> next d = Some plan"
    then have "rowsLoop X [] [] [0..<NumRows r] ([], 0, seen d) = Some (None, [], 1, insert 0 (seen d))"
      by (simp add: rowsLoop_empty_selection)
    with sel a show "Callback X d r = Some (d\<lparr>seen := insert 0 (seen d)\<rparr>,
             Some \<lparr>Fields = [], Columns = [], NumRows = 1\<rparr>,
             plan \<lparr>Fields = [], Columns = [], NumRows = 1\<rparr>)"
      by (simp add: Callback_def Let_def)
  qed
  show "0 \<in> seen d \<longrightarrow> Callback X d r = Some (d, None, None)"
  proof
    assume a: "0 \<in> seen d"
    then have "rowsLoop X [] [] [0..<NumRows r] ([], 0, seen d) = Some (None, [], 0, seen d)"
      by (intro rowsLoop_all_seen) simp
    with sel show "Callback X d r = Some (d, None, None)"
      by (simp add: Callback_def)
  qed
  show "0 < NumRows r \<and> Callback X d r = Some (d', out, e) \<longrightarrow> 0 \<in> seen d'"
  proof
    assume a: "0 < NumRows r \<and> Callback X d r = Some (d', out, e)"
    from a Callback_cases [of X d r d' out e] sel obtain e' bs' rows' S'
      where loop: "rowsLoop X [] [] [0..<NumRows r] ([], 0, seen d) = Some (e', bs', rows', S')"
        and d': "d' = d\<lparr>seen := S'\<rparr>"
      by auto
    from a loop have "S' = insert 0 (seen d)" by (simp add: rowsLoop_empty_selection)
    with d' show "0 \<in> seen d'" by simp
  qed
qed

text \<open>
  Claim C2, as amended. When \<open>Callback\<close> calls the next stage, the schema of the record
  it passes consists of the input fields in the order of the input schema, each once per
  projection expression that matches it; where no field is matched by two expressions,
  that is exactly the matched fields, each once.
\<close>

theorem Callback_output_schema:
  assumes "Callback X d r = Some (d', Some out, err)"
  shows "Fields out = concat (map (\<lambda>f. replicate (matchCount (columns d) f) f) (Fields r))
       \<and> ((\<forall>f \<in> set (Fields r). matchCount (columns d) f \<le> 1) \<longrightarrow>
            Fields out = filter (\<lambda>f. \<exists>col \<in> set (columns d). MatchColumn col (Name f)) (Fields r))"
proof -
  from Callback_selection [OF assms] obtain hs as
    where "fieldsLoop X (hashSeed d) (columns d) r 0 (Fields r) ([], [], []) = Some (Fields out, hs, as)"
    by blast
  from fieldsLoop_Some [OF this]
  have out: "Fields out = concat (map (\<lambda>f. replicate (matchCount (columns d) f) f) (Fields r))" by simp
  show ?thesis
  proof (intro conjI impI)
    show "Fields out = concat (map (\<lambda>f. replicate (matchCount (columns d) f) f) (Fields r))" by (rule out)
  next
    assume "\<forall>f \<in> set (Fields r). matchCount (columns d) f \<le> 1"
    from concat_replicate_filter [OF this] out
    show "Fields out = filter (\<lambda>f. \<exists>col \<in> set (columns d). MatchColumn col (Name f)) (Fields r)"
      by (simp add: matchCount_pos)
  qed
qed

theorem Callback_output_schema_witness:
  "Callback ex_Hashing (SetNext (Distinct [col_a] 7) (\<lambda>r. None)) ex_Record =
     Some ((SetNext (Distinct [col_a] 7) (\<lambda>r. None))\<lparr>seen := {252, 251, 250}\<rparr>,
       Some \<lparr>Fields = [field_a], Columns = [[Some 1, Some 2, Some 3]], NumRows = 3\<rparr>, None)
   \<and> [field_a] = filter (\<lambda>f. \<exists>col \<in> set [col_a]. MatchColumn col (Name f)) (Fields ex_Record)"
proof -
  let ?d = "SetNext (Distinct [col_a] 7) (\<lambda>r. None) :: (nat, nat) Distinction"
  have run: "Callback ex_Hashing ?d ex_Record =
     Some (?d\<lparr>seen := {252, 251, 250}\<rparr>,
       Some \<lparr>Fields = [field_a], Columns = [[Some 1, Some 2, Some 3]], NumRows = 3\<rparr>, None)"
    by (simp add: Callback_def Distinct_def SetNext_def ex_Hashing_def ex_Record_def col_a_def
        field_a_def field_b_def hashArray_def appendValue_def upt_rec Let_def)
  have cols: "columns ?d = [col_a]" by (simp add: Distinct_def SetNext_def)
  have once: "\<forall>f \<in> set (Fields ex_Record). matchCount (columns ?d) f \<le> 1"
    by (simp add: matchCount_def cols ex_Record_def)
  from Callback_output_schema [OF run] once
  have "Fields \<lparr>Fields = [field_a], Columns = [[Some 1, Some 2, Some (3::nat)]], NumRows = 3\<rparr> =
          filter (\<lambda>f. \<exists>col \<in> set (columns ?d). MatchColumn col (Name f)) (Fields ex_Record)"
    by blast
  then have "[field_a] = filter (\<lambda>f. \<exists>col \<in> set [col_a]. MatchColumn col (Name f)) (Fields ex_Record)"
    by (simp only: Record.simps cols)
  with run show ?thesis by (rule conjI)
qed

text \<open>
  Claim C2 as stated fails where two projection expressions match the same field: the
  field \<open>a\<close>, matched twice, is twice in the schema passed downstream.
\<close>

theorem Callback_output_schema_counterexample:
  "Callback ex_Hashing (SetNext (Distinct [col_a, col_a] 7) (\<lambda>r. None)) ex_Record =
     Some ((SetNext (Distinct [col_a, col_a] 7) (\<lambda>r. None))\<lparr>seen := {8064, 8032, 8000}\<rparr>,
       Some \<lparr>Fields = [field_a, field_a],
             Columns = [[Some 1, Some 2, Some 3], [Some 1, Some 2, Some 3]], NumRows = 3\<rparr>, None)
   \<and> filter (\<lambda>f. \<exists>col \<in> set [col_a, col_a]. MatchColumn col (Name f)) (Fields ex_Record) = [field_a]
   \<and> [field_a, field_a] \<noteq> [field_a]"
  by (simp add: Callback_def Distinct_def SetNext_def ex_Hashing_def ex_Record_def col_a_def
      field_a_def field_b_def hashArray_def appendValue_def upt_rec Let_def)

subsection \<open>Rows without a composite\<close>

text \<open>
  Claim C10, as amended. A record with at least one row none of whose fields is matched
  by a projection expression has composite 0 at every row. If the operator has not seen
  the composite 0, the next stage receives a record with no column and one row, and 0 is
  seen from then on; if the operator has seen the composite 0, nothing is forwarded. So
  after the operator has processed such a record, whatever callbacks follow, a later
  record with no matched field forwards nothing: the forwarding happens at most once.
\<close>

theorem unmatched_record_forwarded_once:
  assumes unmatched: "\<forall>f \<in> set (Fields r). \<forall>col \<in> set (columns d). \<not> MatchColumn col (Name f)"
    and rows: "0 < NumRows r"
  shows "(\<forall>i < NumRows r. rowComposite (X :: ('seed, 'v) Hashing) d r i = Some 0)
       \<and> (\<forall>plan. 0 \<notin> seen d \<and> next d = Some plan \<longrightarrow>
            Callback X d r = Some (d\<lparr>seen := insert 0 (seen d)\<rparr>,
              Some \<lparr>Fields = [], Columns = [], NumRows = 1\<rparr>,
              plan \<lparr>Fields = [], Columns = [], NumRows = 1\<rparr>))
       \<and> (0 \<in> seen d \<longrightarrow> Callback X d r = Some (d, None, None))
       \<and> (\<forall>d1 out e rs d2 outs r2.
            Callback X d r = Some (d1, out, e) \<and> Callbacks X d1 rs = Some (d2, outs)
            \<and> (\<forall>f \<in> set (Fields r2). \<forall>col \<in> set (columns d). \<not> MatchColumn col (Name f))
            \<longrightarrow> Callback X d2 r2 = Some (d2, None, None))"
proof (intro conjI allI impI)
  fix i
  assume "i < NumRows r"
  show "rowComposite X d r i = Some 0"
    by (simp add: rowComposite_def fieldsLoop_no_match [OF unmatched])
next
  fix plan
  assume "0 \<notin> seen d \<and> next d = Some plan"
  with rows Callback_unmatched(1) [OF unmatched, where X = X and plan = plan]
  show "Callback X d r = Some (d\<lparr>seen := insert 0 (seen d)\<rparr>,
              Some \<lparr>Fields = [], Columns = [], NumRows = 1\<rparr>,
              plan \<lparr>Fields = [], Columns = [], NumRows = 1\<rparr>)" by simp
next
  assume "0 \<in> seen d"
  with Callback_unmatched(2) [OF unmatched, where X = X]
  show "Callback X d r = Some (d, None, None)" by simp
next
  fix d1 out e rs d2 outs and r2 :: "'v Record"
  assume a: "Callback X d r = Some (d1, out, e) \<and> Callbacks X d1 rs = Some (d2, outs)
            \<and> (\<forall>f \<in> set (Fields r2). \<forall>col \<in> set (columns d). \<not> MatchColumn col (Name f))"
  from a rows Callback_unmatched(3) [OF unmatched, where X = X and d' = d1 and out = out and e = e]
  have "0 \<in> seen d1" by simp
  moreover from a Callbacks_frame [of X d1 rs d2 outs] Callback_frame [of X d r d1 out e]
  have "seen d1 \<subseteq> seen d2" and cols: "columns d2 = columns d" by auto
  ultimately have z: "0 \<in> seen d2" by auto
  from a cols have "\<forall>f \<in> set (Fields r2). \<forall>col \<in> set (columns d2). \<not> MatchColumn col (Name f)" by simp
  from Callback_unmatched(2) [OF this, where X = X] z
  show "Callback X d2 r2 = Some (d2, None, None)" by simp
qed

theorem unmatched_record_forwarded_once_witness:
  "Callback ex_Hashing (SetNext (Distinct [col_a] 7) (\<lambda>r. None)) ex_unmatched =
     Some ((SetNext (Distinct [col_a] 7) (\<lambda>r. None))\<lparr>seen := {0}\<rparr>,
       Some \<lparr>Fields = [], Columns = [], NumRows = 1\<rparr>, None)
   \<and> Callback ex_Hashing ((SetNext (Distinct [col_a] 7) (\<lambda>r. None))\<lparr>seen := {0}\<rparr>) ex_unmatched =
     Some ((SetNext (Distinct [col_a] 7) (\<lambda>r. None))\<lparr>seen := {0}\<rparr>, None, None)
   \<and> rowComposite ex_Hashing (SetNext (Distinct [col_a] 7) (\<lambda>r. None)) ex_unmatched 1 = Some 0"
proof -
  let ?d = "SetNext (Distinct [col_a] 7) (\<lambda>r. None) :: (nat, nat) Distinction"
  have unmatched: "\<forall>f \<in> set (Fields ex_unmatched). \<forall>col \<in> set (columns ?d). \<not> MatchColumn col (Name f)"
    by (simp add: ex_unmatched_def Distinct_def SetNext_def col_a_def field_b_def)
  have rows: "0 < NumRows ex_unmatched"
    by (simp add: ex_unmatched_def)
  note c = unmatched_record_forwarded_once [OF unmatched rows, where X = ex_Hashing]
  have fresh: "0 \<notin> seen ?d \<and> next ?d = Some (\<lambda>r. None)" by (simp add: Distinct_def SetNext_def)
  with c have first: "Callback ex_Hashing ?d ex_unmatched =
      Some (?d\<lparr>seen := {0}\<rparr>, Some \<lparr>Fields = [], Columns = [], NumRows = 1\<rparr>, None)"
    by (simp add: Distinct_def SetNext_def)
  have later: "Callbacks ex_Hashing (?d\<lparr>seen := {0}\<rparr>) [] = Some (?d\<lparr>seen := {0}\<rparr>, [])" by simp
  from c first later unmatched
  have "Callback ex_Hashing (?d\<lparr>seen := {0}\<rparr>) ex_unmatched = Some (?d\<lparr>seen := {0}\<rparr>, None, None)"
    by blast
  moreover from c have "rowComposite ex_Hashing ?d ex_unmatched 1 = Some 0"
    by (simp add: ex_unmatched_def)
  ultimately show ?thesis using first by simp
qed

text \<open>
  Claim C10 as stated fails on an operator that has seen the composite 0 from a row of
  nulls: a fresh operator processes the record whose distinct column is null at every
  row, and the record with no matched field that comes next, the first such record of
  the operator and one with two rows, forwards nothing.
\<close>

theorem unmatched_record_forwarded_once_counterexample:
  "Callbacks ex_Hashing (SetNext (Distinct [col_a] 7) (\<lambda>r. None)) [ex_nulls] =
     Some ((SetNext (Distinct [col_a] 7) (\<lambda>r. None))\<lparr>seen := {0}\<rparr>,
       [\<lparr>Fields = [field_a], Columns = [[None]], NumRows = 1\<rparr>])
   \<and> NumRows ex_unmatched = 2
   \<and> filter (\<lambda>f. \<exists>col \<in> set [col_a]. MatchColumn col (Name f)) (Fields ex_unmatched) = []
   \<and> Callback ex_Hashing ((SetNext (Distinct [col_a] 7) (\<lambda>r. None))\<lparr>seen := {0}\<rparr>) ex_unmatched =
     Some ((SetNext (Distinct [col_a] 7) (\<lambda>r. None))\<lparr>seen := {0}\<rparr>, None, None)"
  by (simp add: Callback_def Distinct_def SetNext_def ex_Hashing_def ex_nulls_def ex_unmatched_def
      col_a_def field_a_def field_b_def hashArray_def appendValue_def upt_rec Let_def)

text \<open>
  Claim C7, as amended. A column whose hash at a row is 0 is skipped from the composite
  of that row. So for a record whose only distinct column is null at every row, the
  composite of every row is 0. When the operator has not seen the composite 0, the record
  has a row and the append of the null does not fail, the next stage receives exactly the
  first row and the later rows are dropped as seen; when the operator has seen the
  composite 0, no row is emitted at all.
\<close>

theorem null_column_collapses:
  assumes sel: "fieldsLoop X (hashSeed d) (columns d) r 0 (Fields r) ([], [], []) = Some ([f], [h], [arr])"
    and nulls: "\<forall>i < NumRows r. i < length arr \<and> arr ! i = None"
  shows "(\<forall>i fieldHash (colHash :: uint64 list) rest hash. i < length colHash \<and> colHash ! i = 0 \<longrightarrow>
            compositeLoop X i ((fieldHash, colHash) # rest) hash = compositeLoop X i rest hash)
       \<and> (\<forall>i < NumRows r. rowComposite X d r i = Some 0)
       \<and> (\<forall>plan. 0 < NumRows r \<and> 0 \<notin> seen d \<and> appendError X arr 0 = None \<and> next d = Some plan \<longrightarrow>
            Callback X d r = Some (d\<lparr>seen := insert 0 (seen d)\<rparr>,
              Some \<lparr>Fields = [f], Columns = [[None]], NumRows = 1\<rparr>,
              plan \<lparr>Fields = [f], Columns = [[None]], NumRows = 1\<rparr>))
       \<and> (0 \<in> seen d \<longrightarrow> Callback X d r = Some (d, None, None))"
proof (intro conjI allI impI)
  fix i fieldHash and colHash :: "uint64 list" and rest hash
  assume "i < length colHash \<and> colHash ! i = 0"
  then show "compositeLoop X i ((fieldHash, colHash) # rest) hash = compositeLoop X i rest hash"
    by simp
next
  fix i
  assume "i < NumRows r"
  with nulls show "rowComposite X d r i = Some 0"
    by (simp add: rowComposite_def sel hashArray_def)
next
  fix plan
  assume a: "0 < NumRows r \<and> 0 \<notin> seen d \<and> appendError X arr 0 = None \<and> next d = Some plan"
  have comp: "compositeLoop X i [(h, hashArray X arr)] 0 = Some 0" if "i < NumRows r" for i
    using that nulls by (simp add: hashArray_def)
  have rest: "rowsLoop X [(h, hashArray X arr)] [arr] [Suc 0..<NumRows r] ([[None]], Suc 0, insert 0 (seen d))
                = Some (None, [[None]], Suc 0, insert 0 (seen d))"
  proof (rule rowsLoop_all_seen, intro ballI)
    fix i
    assume "i \<in> set [Suc 0..<NumRows r]"
    then have "i < NumRows r" by simp
    from comp [OF this] show "\<exists>h' \<in> insert 0 (seen d). compositeLoop X i [(h, hashArray X arr)] 0 = Some h'"
      by blast
  qed
  from a nulls have first: "appendLoop X 0 [([], arr)] = Inr [[None]]"
    by (simp add: appendValue_def)
  from a have "rowsLoop X [(h, hashArray X arr)] [arr] [0..<NumRows r] ([[]], 0, seen d)
                = Some (None, [[None]], Suc 0, insert 0 (seen d))"
    by (simp add: upt_first comp first rest del: compositeLoop.simps appendLoop.simps)
  with sel a show "Callback X d r = Some (d\<lparr>seen := insert 0 (seen d)\<rparr>,
              Some \<lparr>Fields = [f], Columns = [[None]], NumRows = 1\<rparr>,
              plan \<lparr>Fields = [f], Columns = [[None]], NumRows = 1\<rparr>)"
    by (simp add: Callback_def Let_def)
next
  assume a: "0 \<in> seen d"
  have "rowsLoop X [(h, hashArray X arr)] [arr] [0..<NumRows r] ([[]], 0, seen d) = Some (None, [[]], 0, seen d)"
  proof (rule rowsLoop_all_seen, intro ballI)
    fix i
    assume "i \<in> set [0..<NumRows r]"
    with nulls have "compositeLoop X i [(h, hashArray X arr)] 0 = Some 0"
      by (simp add: hashArray_def)
    with a show "\<exists>h' \<in> seen d. compositeLoop X i [(h, hashArray X arr)] 0 = Some h'"
      by blast
  qed
  with sel show "Callback X d r = Some (d, None, None)"
    by (simp add: Callback_def Let_def)
qed

theorem null_column_collapses_witness:
  "Callback ex_Hashing (SetNext (Distinct [col_a] 7) (\<lambda>r. None)) ex_nulls =
     Some ((SetNext (Distinct [col_a] 7) (\<lambda>r. None))\<lparr>seen := {0}\<rparr>,
       Some \<lparr>Fields = [field_a], Columns = [[None]], NumRows = 1\<rparr>, None)
   \<and> rowComposite ex_Hashing (SetNext (Distinct [col_a] 7) (\<lambda>r. None)) ex_nulls 2 = Some 0"
proof -
  let ?d = "SetNext (Distinct [col_a] 7) (\<lambda>r. None) :: (nat, nat) Distinction"
  have sel: "fieldsLoop ex_Hashing (hashSeed ?d) (columns ?d) ex_nulls 0 (Fields ex_nulls) ([], [], [])
               = Some ([field_a], [8], [[None, None, None]])"
    by (simp add: Distinct_def SetNext_def ex_Hashing_def ex_nulls_def col_a_def field_a_def field_b_def)
  have nulls: "\<forall>i < NumRows ex_nulls. i < length [None, None, None :: nat option] \<and> [None, None, None :: nat option] ! i = None"
    by (auto simp: ex_nulls_def less_Suc_eq numeral_3_eq_3)
  note c = null_column_collapses [OF sel nulls]
  have "0 < NumRows ex_nulls \<and> 0 \<notin> seen ?d \<and> appendError ex_Hashing [None, None, None] 0 = None
      \<and> next ?d = Some (\<lambda>r. None)"
    by (simp add: ex_nulls_def Distinct_def SetNext_def ex_Hashing_def)
  with c have "Callback ex_Hashing ?d ex_nulls =
     Some (?d\<lparr>seen := {0}\<rparr>, Some \<lparr>Fields = [field_a], Columns = [[None]], NumRows = 1\<rparr>, None)"
    by (simp add: Distinct_def SetNext_def)
  moreover from c have "rowComposite ex_Hashing ?d ex_nulls 2 = Some 0"
    by (simp add: ex_nulls_def)
  ultimately show ?thesis by simp
qed

text \<open>
  Claim C7 as stated fails on an operator that has seen the composite 0: the record whose
  only distinct column is null at every row is processed twice by a fresh operator, and
  the second callback emits no row, not the first one.
\<close>

theorem null_column_collapses_counterexample:
  "Callbacks ex_Hashing (SetNext (Distinct [col_a] 7) (\<lambda>r. None)) [ex_nulls] =
     Some ((SetNext (Distinct [col_a] 7) (\<lambda>r. None))\<lparr>seen := {0}\<rparr>,
       [\<lparr>Fields = [field_a], Columns = [[None]], NumRows = 1\<rparr>])
   \<and> Callback ex_Hashing ((SetNext (Distinct [col_a] 7) (\<lambda>r. None))\<lparr>seen := {0}\<rparr>) ex_nulls =
     Some ((SetNext (Distinct [col_a] 7) (\<lambda>r. None))\<lparr>seen := {0}\<rparr>, None, None)"
  by (simp add: Callback_def Distinct_def SetNext_def ex_Hashing_def ex_nulls_def col_a_def
      field_a_def field_b_def hashArray_def appendValue_def upt_rec Let_def)

subsection \<open>Each composite is emitted once\<close>

lemma compositeLoop_cong:
  assumes "length chs = length chs'"
    and "\<forall>j < length chs. i < length (chs ! j) \<and> i' < length (chs' ! j) \<and> chs ! j ! i = chs' ! j ! i'"
  shows "compositeLoop X i (zip fhs chs) h = compositeLoop X i' (zip fhs chs') h"
  using assms
proof (induction fhs arbitrary: chs chs' h)
  case Nil
  then show ?case by simp
next
  case (Cons fh fhs)
  show ?case
  proof (cases chs)
    case Nil
    with Cons.prems show ?thesis by simp
  next
    case c: (Cons c cs)
    with Cons.prems(1) obtain c' cs' where c': "chs' = c' # cs'" by (cases chs') auto
    from Cons.prems(2) c c' have hd: "i < length c" "i' < length c'" "c ! i = c' ! i'" by auto
    from Cons.prems(1) c c' have len: "length cs = length cs'" by simp
    have tl: "\<forall>j < length cs. i < length (cs ! j) \<and> i' < length (cs' ! j) \<and> cs ! j ! i = cs' ! j ! i'"
    proof (intro allI impI)
      fix j assume "j < length cs"
      then have "Suc j < length chs" using c by simp
      with Cons.prems(2) c c' show "i < length (cs ! j) \<and> i' < length (cs' ! j) \<and> cs ! j ! i = cs' ! j ! i'"
        by fastforce
    qed
    from Cons.IH [OF len tl] hd c c' show ?thesis by simp
  qed
qed

lemma compositeLoop_bounds:
  assumes "compositeLoop X i hashes h = Some x"
  shows "\<forall>p \<in> set hashes. i < length (snd p)"
  using assms
proof (induction hashes arbitrary: h)
  case Nil
  then show ?case by simp
next
  case (Cons p hashes)
  obtain fh ch where p: "p = (fh, ch)" by (cases p)
  from Cons.prems p have i: "i < length ch" by (simp split: if_splits)
  from Cons.prems p i obtain h' where "compositeLoop X i hashes h' = Some x"
    by (auto split: if_splits)
  from Cons.IH [OF this] i p show ?case by simp
qed

lemma compositeLoop_total:
  assumes "\<forall>p \<in> set hashes. i < length (snd p)"
  shows "compositeLoop X i hashes h \<noteq> None"
  using assms
  by (induction hashes arbitrary: h) auto

lemma appendLoop_Inr:
  assumes "appendLoop X i ps = Inr bs'"
  shows "bs' = map (\<lambda>p. fst p @ [snd p ! i]) ps"
  using assms
  by (induction ps arbitrary: bs') (auto simp: appendValue_def split: sum.splits option.splits)

lemma hashArray_length [simp]: "length (hashArray X arr) = length arr"
  by (simp add: hashArray_def)

lemma hashArray_nth: "k < length arr \<Longrightarrow> hashArray X arr ! k = hashArray X [arr ! k] ! 0"
  by (simp add: hashArray_def)

lemma rows_inv_step:
  assumes inv: "rows_inv X fhs (length arrays) S0 (bs, rows, S)"
    and len: "length fhs = length arrays"
    and comp: "compositeLoop X i (zip fhs (map (hashArray X) arrays)) 0 = Some hash"
    and new: "hash \<notin> S"
    and app: "appendLoop X i (zip bs arrays) = Inr bs1"
  shows "rows_inv X fhs (length arrays) S0 (bs1, rows + 1, insert hash S)"
proof -
  from inv have lbs: "length bs = length arrays" and full: "\<forall>b \<in> set bs. length b = rows"
    and dist: "distinct (rowsComposites X fhs bs rows)"
    and sub: "set (rowsComposites X fhs bs rows) \<subseteq> Some ` S"
    and disj: "set (rowsComposites X fhs bs rows) \<inter> Some ` S0 = {}"
    and S0: "S0 \<subseteq> S"
    by (auto simp: rows_inv_def)
  from appendLoop_Inr [OF app] have bs1: "bs1 = map (\<lambda>p. fst p @ [snd p ! i]) (zip bs arrays)" .
  with lbs have lbs1: "length bs1 = length arrays" by simp
  have nth1: "bs1 ! j = bs ! j @ [arrays ! j ! i]" if "j < length arrays" for j
    using that lbs bs1 by simp
  have lenb: "length (bs ! j) = rows" if "j < length arrays" for j
    using that lbs full by simp
  have full1: "\<forall>b \<in> set bs1. length b = rows + 1"
    using bs1 full by (auto dest: set_zip_leftD)
  from compositeLoop_bounds [OF comp] len
  have inb: "i < length (arrays ! j)" if "j < length arrays" for j
  proof -
    from that len have "(fhs ! j, hashArray X (arrays ! j)) \<in> set (zip fhs (map (hashArray X) arrays))"
      by (auto simp: set_zip intro!: exI [of _ j])
    with compositeLoop_bounds [OF comp] show ?thesis by fastforce
  qed
  have old: "compositeLoop X k (zip fhs (map (hashArray X) bs1)) 0
           = compositeLoop X k (zip fhs (map (hashArray X) bs)) 0" if "k < rows" for k
  proof (rule compositeLoop_cong)
    show "length (map (hashArray X) bs1) = length (map (hashArray X) bs)" using lbs lbs1 by simp
    show "\<forall>j < length (map (hashArray X) bs1).
            k < length (map (hashArray X) bs1 ! j) \<and> k < length (map (hashArray X) bs ! j)
          \<and> map (hashArray X) bs1 ! j ! k = map (hashArray X) bs ! j ! k"
      using that lbs lbs1 nth1 lenb by (simp add: hashArray_def nth_append)
  qed
  have last: "compositeLoop X rows (zip fhs (map (hashArray X) bs1)) 0 = Some hash"
  proof -
    have "compositeLoop X rows (zip fhs (map (hashArray X) bs1)) 0
        = compositeLoop X i (zip fhs (map (hashArray X) arrays)) 0"
    proof (rule compositeLoop_cong)
      show "length (map (hashArray X) bs1) = length (map (hashArray X) arrays)" using lbs1 by simp
      show "\<forall>j < length (map (hashArray X) bs1).
            rows < length (map (hashArray X) bs1 ! j) \<and> i < length (map (hashArray X) arrays ! j)
          \<and> map (hashArray X) bs1 ! j ! rows = map (hashArray X) arrays ! j ! i"
        using lbs lbs1 nth1 lenb inb by (simp add: hashArray_def nth_append)
    qed
    with comp show ?thesis by simp
  qed
  have eq: "rowsComposites X fhs bs1 (rows + 1) = rowsComposites X fhs bs rows @ [Some hash]"
    using old last by (simp add: rowsComposites_def)
  from sub new have fresh: "Some hash \<notin> set (rowsComposites X fhs bs rows)" by auto
  from new S0 have notS0: "hash \<notin> S0" by auto
  show ?thesis
    unfolding rows_inv_def
    using lbs1 full1 eq dist fresh sub disj notS0 S0 by auto
qed

lemma rowsLoop_invariant:
  assumes "rowsLoop X (zip fhs (map (hashArray X) arrays)) arrays idxs (bs, rows, S) = Some (e, bs', rows', S')"
    and "length fhs = length arrays"
    and "rows_inv X fhs (length arrays) S0 (bs, rows, S)"
  shows "rows_inv X fhs (length arrays) S0 (bs', rows', S')"
  using assms
proof (induction idxs arbitrary: bs rows S)
  case Nil
  then show ?case by simp
next
  case (Cons i idxs)
  let ?hashes = "zip fhs (map (hashArray X) arrays)"
  from Cons.prems(1) obtain hash where comp: "compositeLoop X i ?hashes 0 = Some hash"
    by (auto split: option.splits)
  show ?case
  proof (cases "hash \<in> S")
    case True
    with Cons.prems(1) comp have "rowsLoop X ?hashes arrays idxs (bs, rows, S) = Some (e, bs', rows', S')"
      by simp
    from Cons.IH [OF this Cons.prems(2) Cons.prems(3)] show ?thesis .
  next
    case False
    show ?thesis
    proof (cases "appendLoop X i (zip bs arrays)")
      case (Inl err)
      with Cons.prems(1) comp False have "bs' = bs" "rows' = rows" "S' = S" by simp_all
      with Cons.prems(3) show ?thesis by simp
    next
      case (Inr bs1)
      with Cons.prems(1) comp False
      have run: "rowsLoop X ?hashes arrays idxs (bs1, rows + 1, insert hash S) = Some (e, bs', rows', S')"
        by simp
      from rows_inv_step [OF Cons.prems(3) Cons.prems(2) comp False Inr]
      have "rows_inv X fhs (length arrays) S0 (bs1, rows + 1, insert hash S)" .
      from Cons.IH [OF run Cons.prems(2) this] show ?thesis .
    qed
  qed
qed


lemma fieldsLoop_arrays:
  assumes "fieldsLoop X seed cols r i fs0 (fs, hs, as) = Some (fs', hs', as')"
  shows "set as' \<subseteq> set as \<union> set (Columns r)"
  using assms
proof (induction fs0 arbitrary: i fs hs as)
  case Nil
  then show ?case by simp
next
  case (Cons field fs0)
  from Cons.prems obtain fs1 hs1 as1
    where c: "columnsLoop X seed r i field cols (fs, hs, as) = Some (fs1, hs1, as1)"
      and f: "fieldsLoop X seed cols r (i + 1) fs0 (fs1, hs1, as1) = Some (fs', hs', as')"
    by (auto split: option.splits)
  from columnsLoop_Some [OF c] have "set as1 \<subseteq> set as \<union> set (Columns r)"
    by (cases "matchCount cols field = 0") auto
  with Cons.IH [OF f] show ?case by auto
qed

lemma Callback_composites:
  assumes "Callback X d r = Some (d', Some R, e)"
  shows "(\<forall>c \<in> set (Columns R). length c = NumRows R)
       \<and> distinct (recordComposites X (hashSeed d) R)
       \<and> set (recordComposites X (hashSeed d) R) \<subseteq> Some ` seen d'
       \<and> set (recordComposites X (hashSeed d) R) \<inter> Some ` seen d = {}"
proof -
  from Callback_cases [OF assms] obtain fs hs as e' bs' rows' S'
    where sel: "fieldsLoop X (hashSeed d) (columns d) r 0 (Fields r) ([], [], []) = Some (fs, hs, as)"
      and loop: "rowsLoop X (zip hs (map (hashArray X) as)) as [0..<NumRows r] (map (\<lambda>arr. []) as, 0, seen d)
               = Some (e', bs', rows', S')"
      and d': "d' = d\<lparr>seen := S'\<rparr>"
      and out: "Some R = (if e' = None \<and> rows' \<noteq> 0 then Some \<lparr>Fields = fs, Columns = bs', NumRows = rows'\<rparr> else None)"
    by blast
  from out have R: "R = \<lparr>Fields = fs, Columns = bs', NumRows = rows'\<rparr>" by (simp split: if_splits)
  from fieldsLoop_Some [OF sel] have hs: "hs = map (\<lambda>f. scalar_Hash X (hashSeed d) (Name f)) fs"
    and len: "length hs = length as" by auto
  have "rows_inv X hs (length as) (seen d) (map (\<lambda>arr. []) as, 0, seen d)"
    by (simp add: rows_inv_def rowsComposites_def)
  from rowsLoop_invariant [OF loop len this] have "rows_inv X hs (length as) (seen d) (bs', rows', S')" .
  with R hs d' show ?thesis
    by (simp add: rows_inv_def recordComposites_def)
qed

lemma Callbacks_composites:
  assumes "Callbacks X d rs = Some (d', outs)"
  shows "(\<forall>R \<in> set outs. \<forall>c \<in> set (Columns R). length c = NumRows R)
       \<and> distinct (concat (map (recordComposites X (hashSeed d)) outs))
       \<and> set (concat (map (recordComposites X (hashSeed d)) outs)) \<subseteq> Some ` seen d'
       \<and> set (concat (map (recordComposites X (hashSeed d)) outs)) \<inter> Some ` seen d = {}"
  using assms
proof (induction rs arbitrary: d outs)
  case Nil
  then show ?case by simp
next
  case (Cons r rs)
  from Cons.prems obtain d1 out e outs1
    where c: "Callback X d r = Some (d1, out, e)" and cs: "Callbacks X d1 rs = Some (d', outs1)"
      and outs: "outs = (case out of None \<Rightarrow> [] | Some rec \<Rightarrow> [rec]) @ outs1"
    by (auto split: option.splits prod.splits)
  from Callback_frame [OF c] have mono: "seen d \<subseteq> seen d1" and seed: "hashSeed d1 = hashSeed d" by auto
  from Callbacks_frame [OF cs] have mono': "seen d1 \<subseteq> seen d'" by auto
  note IH = Cons.IH [OF cs, unfolded seed]
  show ?case
  proof (cases out)
    case None
    with outs have o: "outs = outs1" by simp
    from IH have T: "\<forall>R \<in> set outs1. \<forall>c \<in> set (Columns R). length c = NumRows R"
      "distinct (concat (map (recordComposites X (hashSeed d)) outs1))"
      "set (concat (map (recordComposites X (hashSeed d)) outs1)) \<subseteq> Some ` seen d'"
      "set (concat (map (recordComposites X (hashSeed d)) outs1)) \<inter> Some ` seen d1 = {}" by auto
    from T(4) mono have "set (concat (map (recordComposites X (hashSeed d)) outs1)) \<inter> Some ` seen d = {}"
      by blast
    with o T(1) T(2) T(3) show ?thesis by blast
  next
    case (Some R)
    from Callback_composites [OF c [unfolded Some]]
    have R: "\<forall>c \<in> set (Columns R). length c = NumRows R"
      "distinct (recordComposites X (hashSeed d) R)"
      "set (recordComposites X (hashSeed d) R) \<subseteq> Some ` seen d1"
      "set (recordComposites X (hashSeed d) R) \<inter> Some ` seen d = {}" by auto
    from IH have T: "\<forall>R \<in> set outs1. \<forall>c \<in> set (Columns R). length c = NumRows R"
      "distinct (concat (map (recordComposites X (hashSeed d)) outs1))"
      "set (concat (map (recordComposites X (hashSeed d)) outs1)) \<subseteq> Some ` seen d'"
      "set (concat (map (recordComposites X (hashSeed d)) outs1)) \<inter> Some ` seen d1 = {}" by auto
    from outs Some have o: "outs = R # outs1" by simp
    have 1: "\<forall>R \<in> set outs. \<forall>c \<in> set (Columns R). length c = NumRows R" using o R(1) T(1) by simp
    have 2: "distinct (concat (map (recordComposites X (hashSeed d)) outs))"
      using o R(2) T(2) R(3) T(4) by auto
    from mono' have "Some ` seen d1 \<subseteq> Some ` seen d'" by blast
    with R(3) have "set (recordComposites X (hashSeed d) R) \<subseteq> Some ` seen d'" by blast
    with o T(3) have 3: "set (concat (map (recordComposites X (hashSeed d)) outs)) \<subseteq> Some ` seen d'"
      by simp
    from T(4) mono have "set (concat (map (recordComposites X (hashSeed d)) outs1)) \<inter> Some ` seen d = {}"
      by blast
    with o R(4) have 4: "set (concat (map (recordComposites X (hashSeed d)) outs)) \<inter> Some ` seen d = {}"
      by (simp add: Int_Un_distrib2)
    from 1 2 3 4 show ?thesis by blast
  qed
qed

lemma recordComposites_tuples:
  assumes "\<forall>c \<in> set (Columns R). length c = NumRows R"
  shows "recordComposites X seed R = map (tupleComposite X seed) (recordTuples R)"
proof -
  have "compositeLoop X k (zip (map (\<lambda>f. scalar_Hash X seed (Name f)) (Fields R)) (map (hashArray X) (Columns R))) 0
      = compositeLoop X 0 (zip (map (\<lambda>f. scalar_Hash X seed (Name f)) (Fields R))
            (map (\<lambda>c. hashArray X [c]) (map (\<lambda>c. c ! k) (Columns R)))) 0"
    if "k < NumRows R" for k
  proof (rule compositeLoop_cong)
    show "length (map (hashArray X) (Columns R)) = length (map (\<lambda>c. hashArray X [c]) (map (\<lambda>c. c ! k) (Columns R)))"
      by simp
    show "\<forall>j < length (map (hashArray X) (Columns R)).
            k < length (map (hashArray X) (Columns R) ! j)
          \<and> 0 < length (map (\<lambda>c. hashArray X [c]) (map (\<lambda>c. c ! k) (Columns R)) ! j)
          \<and> map (hashArray X) (Columns R) ! j ! k = map (\<lambda>c. hashArray X [c]) (map (\<lambda>c. c ! k) (Columns R)) ! j ! 0"
      using that assms by (simp add: hashArray_def)
  qed
  then show ?thesis
    by (simp add: recordComposites_def rowsComposites_def recordTuples_def tupleComposite_def)
qed

lemma concat_recordComposites_tuples:
  assumes "\<forall>R \<in> set outs. \<forall>c \<in> set (Columns R). length c = NumRows R"
  shows "concat (map (recordComposites X seed) outs) = map (tupleComposite X seed) (concat (map recordTuples outs))"
  using assms by (induction outs) (simp_all add: recordComposites_tuples)

lemma rowsLoop_total:
  assumes "\<forall>i \<in> set idxs. \<forall>p \<in> set hashes. i < length (snd p)"
  shows "rowsLoop X hashes arrays idxs st \<noteq> None"
  using assms
proof (induction idxs arbitrary: st)
  case Nil
  then show ?case by simp
next
  case (Cons i idxs)
  obtain bs rows S where st: "st = (bs, rows, S)" by (cases st)
  from Cons.prems have "\<forall>p \<in> set hashes. i < length (snd p)" by simp
  from compositeLoop_total [OF this, of X 0] obtain hash where "compositeLoop X i hashes 0 = Some hash"
    by (cases "compositeLoop X i hashes 0") auto
  moreover from Cons.prems have "\<forall>i \<in> set idxs. \<forall>p \<in> set hashes. i < length (snd p)" by simp
  note Cons.IH [OF this]
  ultimately show ?case using st by (auto split: sum.splits)
qed

lemma Callback_total:
  assumes "wfRecord r" and nxt: "next d \<noteq> None"
  shows "Callback X d r \<noteq> None"
proof -
  from assms have "0 + length (Fields r) \<le> length (Columns r)" by (simp add: wfRecord_def)
  from fieldsLoop_total [OF this, of X "hashSeed d" "columns d" "([], [], [])"] obtain fs hs as
    where sel: "fieldsLoop X (hashSeed d) (columns d) r 0 (Fields r) ([], [], []) = Some (fs, hs, as)"
    by (cases "fieldsLoop X (hashSeed d) (columns d) r 0 (Fields r) ([], [], [])") auto
  from fieldsLoop_arrays [OF sel] assms have "\<forall>arr \<in> set as. NumRows r \<le> length arr"
    by (auto simp: wfRecord_def)
  then have "\<forall>i \<in> set [0..<NumRows r]. \<forall>p \<in> set (zip hs (map (hashArray X) as)). i < length (snd p)"
    by (fastforce dest: set_zip_rightD)
  from rowsLoop_total [OF this]
  have "rowsLoop X (zip hs (map (hashArray X) as)) as [0..<NumRows r] (map (\<lambda>arr. []) as, 0, seen d) \<noteq> None" .
  with sel nxt show ?thesis
    by (auto simp: Callback_def Let_def split: option.splits prod.splits)
qed

lemma Callbacks_total:
  assumes "\<forall>r \<in> set rs. wfRecord r" and "next d \<noteq> None"
  shows "Callbacks X d rs \<noteq> None"
  using assms
proof (induction rs arbitrary: d)
  case Nil
  then show ?case by simp
next
  case (Cons r rs)
  then have "wfRecord r" by simp
  from Callback_total [OF this Cons.prems(2), of X] obtain d1 out e
    where c: "Callback X d r = Some (d1, out, e)"
    by (cases "Callback X d r") auto
  from Callback_frame [OF c] Cons.prems(2) have "next d1 \<noteq> None" by simp
  with Cons have "Callbacks X d1 rs \<noteq> None" by simp
  with c show ?case by auto
qed

text \<open>
  Claim C6. For any sequence of callbacks of one producer, run one after the other from
  any state of the operator: no composite is computed for two of the rows passed
  downstream (nor is any of them a composite the operator had already seen), every such
  row has a composite, and so no tuple of the distinct columns is passed downstream twice.
  The sequence runs to its end, without a panic, on records that have one column per
  field and no column shorter than the number of rows, once \<open>next\<close> is set.
\<close>

theorem distinct_emits_each_composite_once:
  "((\<forall>r \<in> set rs. wfRecord r) \<and> next d \<noteq> None \<longrightarrow> Callbacks X d rs \<noteq> None)
 \<and> (\<forall>d' outs. Callbacks X d rs = Some (d', outs) \<longrightarrow>
        distinct (concat (map (recordComposites X (hashSeed d)) outs))
      \<and> set (concat (map (recordComposites X (hashSeed d)) outs)) \<inter> Some ` seen d = {}
      \<and> None \<notin> set (concat (map (recordComposites X (hashSeed d)) outs))
      \<and> distinct (concat (map recordTuples outs)))"
proof (intro conjI allI impI)
  assume "(\<forall>r \<in> set rs. wfRecord r) \<and> next d \<noteq> None"
  then show "Callbacks X d rs \<noteq> None" by (simp add: Callbacks_total)
next
  fix d' outs
  assume run: "Callbacks X d rs = Some (d', outs)"
  note c = Callbacks_composites [OF run]
  from c show "distinct (concat (map (recordComposites X (hashSeed d)) outs))" by blast
  from c show "set (concat (map (recordComposites X (hashSeed d)) outs)) \<inter> Some ` seen d = {}" by blast
  from c show "None \<notin> set (concat (map (recordComposites X (hashSeed d)) outs))" by blast
  from c have wf: "\<forall>R \<in> set outs. \<forall>c \<in> set (Columns R). length c = NumRows R" by blast
  from c have "distinct (concat (map (recordComposites X (hashSeed d)) outs))" by blast
  then have "distinct (map (tupleComposite X (hashSeed d)) (concat (map recordTuples outs)))"
    by (simp only: concat_recordComposites_tuples [OF wf])
  then show "distinct (concat (map recordTuples outs))" by (simp add: distinct_map)
qed

theorem distinct_emits_each_composite_once_witness:
  "Callbacks ex_Hashing (SetNext (Distinct [col_a] 7) (\<lambda>r. None)) [ex_Record, ex_nulls, ex_Record] =
     Some ((SetNext (Distinct [col_a] 7) (\<lambda>r. None))\<lparr>seen := {0, 252, 251, 250}\<rparr>,
       [\<lparr>Fields = [field_a], Columns = [[Some 1, Some 2, Some 3]], NumRows = 3\<rparr>,
        \<lparr>Fields = [field_a], Columns = [[None]], NumRows = 1\<rparr>])
   \<and> distinct (concat (map (recordComposites ex_Hashing 7)
        [\<lparr>Fields = [field_a], Columns = [[Some 1, Some 2, Some 3]], NumRows = 3\<rparr>,
         \<lparr>Fields = [field_a], Columns = [[None]], NumRows = 1\<rparr>]))
   \<and> distinct (concat (map recordTuples
        [\<lparr>Fields = [field_a], Columns = [[Some 1, Some 2, Some (3::nat)]], NumRows = 3\<rparr>,
         \<lparr>Fields = [field_a], Columns = [[None]], NumRows = 1\<rparr>]))"
proof -
  let ?d = "SetNext (Distinct [col_a] 7) (\<lambda>r. None) :: (nat, nat) Distinction"
  let ?outs = "[\<lparr>Fields = [field_a], Columns = [[Some 1, Some 2, Some (3::nat)]], NumRows = 3\<rparr>,
        \<lparr>Fields = [field_a], Columns = [[None]], NumRows = 1\<rparr>]"
  have run: "Callbacks ex_Hashing ?d [ex_Record, ex_nulls, ex_Record] =
     Some (?d\<lparr>seen := {0, 252, 251, 250}\<rparr>, ?outs)"
    by (simp add: Callback_def Distinct_def SetNext_def ex_Hashing_def ex_Record_def ex_nulls_def col_a_def
        field_a_def field_b_def hashArray_def appendValue_def upt_rec Let_def insert_commute)
  have seed: "hashSeed ?d = 7" by (simp add: Distinct_def SetNext_def)
  from distinct_emits_each_composite_once [where rs = "[ex_Record, ex_nulls, ex_Record]" and X = ex_Hashing and d = ?d] run
  have "distinct (concat (map (recordComposites ex_Hashing (hashSeed ?d)) ?outs))
      \<and> distinct (concat (map recordTuples ?outs))"
    by blast
  with run seed show ?thesis by simp
qed

end
